theory Spec2Isabelle
  imports Main "HOL-Library.Sublist" "HOL-Library.AList"
begin

section \<open>Text: Python strings as lists of code points\<close>

text \<open>
  A Python \<open>str\<close> is a sequence of Unicode code points, so a text is a list of natural
  numbers. \<open>str\<close> turns an Isabelle string literal (8-bit characters) into such a text;
  the backslash, which an Isabelle literal cannot hold, is the code point \<open>92\<close>.
\<close>

type_synonym pystr = "nat list"

definition str :: "string \<Rightarrow> pystr" where
  "str s = map of_char s"

definition backslash :: nat where
  "backslash = 92"

text \<open>
  \<open>str.isspace\<close> for one code point, which is also what \<open>\s\<close> matches in a
  \<open>str\<close> pattern: the characters of CPython's \<open>_PyUnicode_IsWhitespace\<close>.
\<close>

definition isspace :: "nat \<Rightarrow> bool" where
  "isspace c \<longleftrightarrow>
     (9 \<le> c \<and> c \<le> 13) \<or> (28 \<le> c \<and> c \<le> 32) \<or> c = 133 \<or> c = 160 \<or> c = 5760 \<or>
     (8192 \<le> c \<and> c \<le> 8202) \<or> c = 8232 \<or> c = 8233 \<or> c = 8239 \<or> c = 8287 \<or> c = 12288"

text \<open>\<open>text.strip()\<close>: whitespace is removed at both ends.\<close>

definition strip :: "pystr \<Rightarrow> pystr" where
  "strip s = rev (dropWhile isspace (rev (dropWhile isspace s)))"

text \<open>\<open>text.startswith(p)\<close>.\<close>

definition startswith :: "pystr \<Rightarrow> pystr \<Rightarrow> bool" where
  "startswith s p = prefix p s"

text \<open>
  \<open>s.replace(old, new)\<close>: every non-overlapping occurrence of \<open>old\<close>, found from left
  to right, is replaced; the scan resumes after the occurrence, in the source text. For
  an empty \<open>old\<close> Python puts \<open>new\<close> before every character and at the end.
\<close>

fun replace_scan :: "pystr \<Rightarrow> pystr \<Rightarrow> pystr \<Rightarrow> pystr" where
  "replace_scan old new [] = []"
| "replace_scan old new (c # cs) =
     (if prefix old (c # cs) \<and> old \<noteq> []
      then new @ replace_scan old new (drop (length old - 1) cs)
      else c # replace_scan old new cs)"

definition replace :: "pystr \<Rightarrow> pystr \<Rightarrow> pystr \<Rightarrow> pystr" where
  "replace s old new =
     (if old = [] then new @ concat (map (\<lambda>c. c # new) s) else replace_scan old new s)"

section \<open>The regular expressions of the script\<close>

text \<open>
  The three patterns of the script are sequences of the following items, matched the
  way Python's backtracking matcher does: items in order, \<open>?\<close> and \<open>*\<close> greedy (the
  longest choice first, shorter ones on failure of what follows).
  \<^item> \<open>Bol\<close> is \<open>^\<close> without \<open>re.MULTILINE\<close>: the start of the text;
  \<^item> \<open>Eol\<close> is \<open>$\<close> without \<open>re.MULTILINE\<close>: the end of the text, or just before a
    newline that ends the text;
  \<^item> \<open>Lit l\<close> is the literal text \<open>l\<close>;
  \<^item> \<open>Opt l\<close> is \<open>(?:l)?\<close>;
  \<^item> \<open>Star cs\<close> is \<open>c*\<close> for a character set \<open>c\<close>, which is \<open>\s\<close> or a negated
    class \<open>[^...]\<close>.
\<close>

datatype charset = Whitespace | NoneOf pystr

fun in_charset :: "charset \<Rightarrow> nat \<Rightarrow> bool" where
  "in_charset Whitespace c = isspace c"
| "in_charset (NoneOf xs) c = (c \<notin> set xs)"

datatype item = Bol | Eol | Lit pystr | Opt pystr | Star charset

text \<open>
  \<open>re_match r b s\<close> matches the pattern \<open>r\<close> at the head of \<open>s\<close> (\<open>b\<close> tells whether
  the head of \<open>s\<close> is the start of the whole text) and returns the text left after the
  match that the backtracking search finds first.
\<close>

fun re_match :: "item list \<Rightarrow> bool \<Rightarrow> pystr \<Rightarrow> pystr option" where
  "re_match [] b s = Some s"
| "re_match (Bol # r) b s = (if b then re_match r b s else None)"
| "re_match (Eol # r) b s = (if s = [] \<or> s = [10] then re_match r b s else None)"
| "re_match (Lit l # r) b s =
     (if prefix l s then re_match r (b \<and> l = []) (drop (length l) s) else None)"
| "re_match (Opt l # r) b s =
     (if prefix l s
      then (case re_match r (b \<and> l = []) (drop (length l) s) of
              Some x \<Rightarrow> Some x
            | None \<Rightarrow> re_match r b s)
      else re_match r b s)"
| "re_match (Star cs # r) b [] = re_match r b []"
| "re_match (Star cs # r) b (c # s) =
     (if in_charset cs c
      then (case re_match (Star cs # r) False s of
              Some x \<Rightarrow> Some x
            | None \<Rightarrow> re_match r b (c # s))
      else re_match r b (c # s))"

text \<open>
  \<open>re.search(r, s)\<close>: the match at the leftmost position where there is one; the
  result is the matched text (\<open>group(0)\<close>), or \<open>None\<close>.
\<close>

fun re_search_from :: "item list \<Rightarrow> bool \<Rightarrow> pystr \<Rightarrow> pystr option" where
  "re_search_from r b [] = (case re_match r b [] of Some x \<Rightarrow> Some [] | None \<Rightarrow> None)"
| "re_search_from r b (c # cs) =
     (case re_match r b (c # cs) of
        Some x \<Rightarrow> Some (take (length (c # cs) - length x) (c # cs))
      | None \<Rightarrow> re_search_from r False cs)"

definition re_search :: "item list \<Rightarrow> pystr \<Rightarrow> pystr option" where
  "re_search r s = re_search_from r True s"

text \<open>
  \<open>re.sub(r, '', s)\<close>: every non-overlapping match, found from left to right, is
  deleted. A match of the empty text deletes nothing, so there the scan just moves on by
  one character (the patterns of the script never match the empty text).
\<close>

fun re_sub_from :: "item list \<Rightarrow> bool \<Rightarrow> pystr \<Rightarrow> pystr" where
  "re_sub_from r b [] = []"
| "re_sub_from r b (c # cs) =
     (case re_match r b (c # cs) of
        Some x \<Rightarrow>
          (if length x < length (c # cs) then re_sub_from r False x
           else c # re_sub_from r False cs)
      | None \<Rightarrow> c # re_sub_from r False cs)"

definition re_sub_empty :: "item list \<Rightarrow> pystr \<Rightarrow> pystr" where
  "re_sub_empty r s = re_sub_from r True s"

section \<open>The JSON decoder\<close>

text \<open>
  \<open>json.loads\<close> is the standard library's decoder with its default settings (strict
  strings, no hooks). The model follows \<open>json/decoder.py\<close> and \<open>json/scanner.py\<close>. A
  decoded object is a Python \<open>dict\<close>: an association list in insertion order, in which a
  repeated key keeps its place and takes the later value. An integer literal becomes an
  \<open>int\<close>; a literal with a fraction or an exponent becomes a \<open>float\<close>, which is kept here
  as the text of the literal (so are \<open>NaN\<close>, \<open>Infinity\<close> and \<open>-Infinity\<close>).
\<close>

datatype json =
    JNull
  | JBool bool
  | JInt int
  | JFloat pystr
  | JString pystr
  | JArray "json list"
  | JObject "(pystr \<times> json) list"

text \<open>
  Whatever goes wrong in the \<open>try\<close> block of the script is caught by its
  \<open>except Exception\<close>, which prints the error. \<open>JSONDecodeError\<close> is the decoder's own
  exception; \<open>ValueError\<close> is what \<open>int\<close> raises on an integer literal of more than
  4300 digits (the default limit of the interpreter, Python 3.11). \<open>RecursionError\<close>
  stands for the fuel of the model being used up, which \<open>json_loads\<close> never lets happen.
  Python itself raises it on a text nested more deeply than the interpreter can recurse,
  some thousand levels, depending on the interpreter and on what is on its stack; that
  limit is not modelled, and the model decodes such a text as if there were none.
\<close>

datatype error = JSONDecodeError | ValueError | RecursionError

definition is_json_ws :: "nat \<Rightarrow> bool" where
  "is_json_ws c \<longleftrightarrow> c = 32 \<or> c = 9 \<or> c = 10 \<or> c = 13"

definition skip_ws :: "pystr \<Rightarrow> pystr" where
  "skip_ws s = dropWhile is_json_ws s"

definition isdigit :: "nat \<Rightarrow> bool" where
  "isdigit c \<longleftrightarrow> 48 \<le> c \<and> c \<le> 57"

definition hex_value :: "nat \<Rightarrow> nat option" where
  "hex_value c =
     (if 48 \<le> c \<and> c \<le> 57 then Some (c - 48)
      else if 65 \<le> c \<and> c \<le> 70 then Some (c - 55)
      else if 97 \<le> c \<and> c \<le> 102 then Some (c - 87)
      else None)"

text \<open>\<open>_decode_uXXXX\<close>: the four hexadecimal digits after \<open>\u\<close>.\<close>

fun decode_uXXXX :: "pystr \<Rightarrow> nat option" where
  "decode_uXXXX (a # b # c # d # r) =
     (case (hex_value a, hex_value b, hex_value c, hex_value d) of
        (Some x, Some y, Some z, Some w) \<Rightarrow> Some (((x * 16 + y) * 16 + z) * 16 + w)
      | _ \<Rightarrow> None)"
| "decode_uXXXX r = None"

text \<open>The table \<open>BACKSLASH\<close> of the one-letter escapes.\<close>

definition BACKSLASH :: "nat \<Rightarrow> nat option" where
  "BACKSLASH e =
     (if e = 34 then Some 34
      else if e = 92 then Some 92
      else if e = 47 then Some 47
      else if e = 98 then Some 8
      else if e = 102 then Some 12
      else if e = 110 then Some 10
      else if e = 114 then Some 13
      else if e = 116 then Some 9
      else None)"

definition with_char :: "nat \<Rightarrow> error + (pystr \<times> pystr) \<Rightarrow> error + (pystr \<times> pystr)" where
  "with_char c res = (case res of Inl e \<Rightarrow> Inl e | Inr (x, r) \<Rightarrow> Inr (c # x, r))"

text \<open>
  \<open>scanstring\<close>, called after the opening quote: the decoded string and the text after
  the closing quote. A control character, an unknown escape, a bad \<open>\uXXXX\<close> and a
  missing closing quote are errors. A high surrogate followed by an escaped low surrogate
  is one code point.
\<close>

fun scanstring :: "pystr \<Rightarrow> error + (pystr \<times> pystr)" where
  "scanstring [] = Inl JSONDecodeError"
| "scanstring (c # cs) =
     (if c = 34 then Inr ([], cs)
      else if c = 92 then
        (case cs of
           [] \<Rightarrow> Inl JSONDecodeError
         | e # r \<Rightarrow>
             if e = 117 then
               (case decode_uXXXX r of
                  None \<Rightarrow> Inl JSONDecodeError
                | Some uni \<Rightarrow>
                    if 55296 \<le> uni \<and> uni \<le> 56319 \<and> prefix [92, 117] (drop 4 r) then
                      (case decode_uXXXX (drop 6 r) of
                         None \<Rightarrow> Inl JSONDecodeError
                       | Some uni2 \<Rightarrow>
                           if 56320 \<le> uni2 \<and> uni2 \<le> 57343
                           then with_char (65536 + (uni - 55296) * 1024 + (uni2 - 56320))
                                  (scanstring (drop 10 r))
                           else with_char uni (scanstring (drop 4 r)))
                    else with_char uni (scanstring (drop 4 r)))
             else
               (case BACKSLASH e of
                  None \<Rightarrow> Inl JSONDecodeError
                | Some ch \<Rightarrow> with_char ch (scanstring r)))
      else if c < 32 then Inl JSONDecodeError
      else with_char c (scanstring cs))"

text \<open>
  \<open>NUMBER_RE\<close>, \<open>(-?(?:0|[1-9]\d*))(\.\d+)?([eE][-+]?\d+)?\<close>, at the head of the text:
  the integer part, the fraction, the exponent and the text left.
\<close>

definition match_integer :: "pystr \<Rightarrow> (pystr \<times> pystr) option" where
  "match_integer s =
     (let sign = (if prefix [45] s then [45] else []);
          s1 = drop (length sign) s
      in case s1 of
           [] \<Rightarrow> None
         | d # r \<Rightarrow>
             if d = 48 then Some (sign @ [48], r)
             else if 49 \<le> d \<and> d \<le> 57
             then Some (sign @ d # takeWhile isdigit r, dropWhile isdigit r)
             else None)"

definition match_frac :: "pystr \<Rightarrow> pystr \<times> pystr" where
  "match_frac s =
     (case s of
        c # r \<Rightarrow>
          if c = 46 \<and> takeWhile isdigit r \<noteq> []
          then (c # takeWhile isdigit r, dropWhile isdigit r)
          else ([], s)
      | [] \<Rightarrow> ([], s))"

definition match_exp :: "pystr \<Rightarrow> pystr \<times> pystr" where
  "match_exp s =
     (case s of
        c # r \<Rightarrow>
          if c = 101 \<or> c = 69 then
            (let sign = (if prefix [45] r \<or> prefix [43] r then take 1 r else []);
                 r1 = drop (length sign) r
             in if takeWhile isdigit r1 \<noteq> []
                then (c # sign @ takeWhile isdigit r1, dropWhile isdigit r1)
                else ([], s))
          else ([], s)
      | [] \<Rightarrow> ([], s))"

definition digits_value :: "pystr \<Rightarrow> int" where
  "digits_value ds = foldl (\<lambda>a d. 10 * a + int (d - 48)) 0 ds"

text \<open>\<open>int(integer)\<close>: the sign does not count towards the limit on the digits.\<close>

definition parse_int :: "pystr \<Rightarrow> error + json" where
  "parse_int s =
     (let digits = (if prefix [45] s then drop 1 s else s)
      in if 4300 < length digits then Inl ValueError
         else Inr (JInt (if prefix [45] s then - digits_value digits else digits_value digits)))"

definition match_number :: "pystr \<Rightarrow> ((error + json) \<times> pystr) option" where
  "match_number s =
     (case match_integer s of
        None \<Rightarrow> None
      | Some (integer, s1) \<Rightarrow>
          (let (frac, s2) = match_frac s1; (exp, s3) = match_exp s2
           in if frac = [] \<and> exp = [] then Some (parse_int integer, s3)
              else Some (Inr (JFloat (integer @ frac @ exp)), s3)))"

text \<open>\<open>dict(pairs)\<close>: the pairs are inserted in order.\<close>

definition dict :: "(pystr \<times> json) list \<Rightarrow> (pystr \<times> json) list" where
  "dict pairs = foldl (\<lambda>d (k, v). AList.update k v d) [] pairs"

text \<open>
  \<open>scan_once\<close> decodes one value at the head of the text and returns it with the text
  left; \<open>JSONObject\<close> and \<open>JSONArray\<close> are its loops over the members of an object (entered
  after the opening quote of a key) and the items of an array. The first argument is the
  fuel: the depth of recursion still allowed.
\<close>

fun scan_once :: "nat \<Rightarrow> pystr \<Rightarrow> error + (json \<times> pystr)"
  and JSONObject :: "nat \<Rightarrow> pystr \<Rightarrow> (pystr \<times> json) list \<Rightarrow> error + (json \<times> pystr)"
  and JSONArray :: "nat \<Rightarrow> pystr \<Rightarrow> json list \<Rightarrow> error + (json \<times> pystr)" where
  "scan_once 0 s = Inl RecursionError"
| "scan_once (Suc n) [] = Inl JSONDecodeError"
| "scan_once (Suc n) (c # cs) =
     (if c = 34 then
        (case scanstring cs of Inl e \<Rightarrow> Inl e | Inr (x, r) \<Rightarrow> Inr (JString x, r))
      else if c = 123 then
        (case skip_ws cs of
           [] \<Rightarrow> Inl JSONDecodeError
         | d # r \<Rightarrow>
             if d = 125 then Inr (JObject [], r)
             else if d = 34 then JSONObject n r []
             else Inl JSONDecodeError)
      else if c = 91 then
        (if prefix [93] (skip_ws cs) then Inr (JArray [], drop 1 (skip_ws cs))
         else JSONArray n (skip_ws cs) [])
      else if prefix (str ''null'') (c # cs) then Inr (JNull, drop 4 (c # cs))
      else if prefix (str ''true'') (c # cs) then Inr (JBool True, drop 4 (c # cs))
      else if prefix (str ''false'') (c # cs) then Inr (JBool False, drop 5 (c # cs))
      else
        (case match_number (c # cs) of
           Some (res, r) \<Rightarrow> (case res of Inl e \<Rightarrow> Inl e | Inr v \<Rightarrow> Inr (v, r))
         | None \<Rightarrow>
             if prefix (str ''NaN'') (c # cs) then Inr (JFloat (str ''NaN''), drop 3 (c # cs))
             else if prefix (str ''Infinity'') (c # cs)
             then Inr (JFloat (str ''Infinity''), drop 8 (c # cs))
             else if prefix (str ''-Infinity'') (c # cs)
             then Inr (JFloat (str ''-Infinity''), drop 9 (c # cs))
             else Inl JSONDecodeError))"
| "JSONObject 0 s pairs = Inl RecursionError"
| "JSONObject (Suc n) s pairs =
     (case scanstring s of
        Inl e \<Rightarrow> Inl e
      | Inr (key, s1) \<Rightarrow>
          (case skip_ws s1 of
             [] \<Rightarrow> Inl JSONDecodeError
           | c # s2 \<Rightarrow>
               if c \<noteq> 58 then Inl JSONDecodeError
               else
                 (case scan_once n (skip_ws s2) of
                    Inl e \<Rightarrow> Inl e
                  | Inr (v, s3) \<Rightarrow>
                      (case skip_ws s3 of
                         [] \<Rightarrow> Inl JSONDecodeError
                       | d # s4 \<Rightarrow>
                           if d = 125 then Inr (JObject (dict (pairs @ [(key, v)])), s4)
                           else if d \<noteq> 44 then Inl JSONDecodeError
                           else
                             (case skip_ws s4 of
                                [] \<Rightarrow> Inl JSONDecodeError
                              | q # s5 \<Rightarrow>
                                  if q \<noteq> 34 then Inl JSONDecodeError
                                  else JSONObject n s5 (pairs @ [(key, v)]))))))"
| "JSONArray 0 s values = Inl RecursionError"
| "JSONArray (Suc n) s values =
     (case scan_once n s of
        Inl e \<Rightarrow> Inl e
      | Inr (v, s1) \<Rightarrow>
          (case skip_ws s1 of
             [] \<Rightarrow> Inl JSONDecodeError
           | d # s2 \<Rightarrow>
               if d = 93 then Inr (JArray (values @ [v]), s2)
               else if d \<noteq> 44 then Inl JSONDecodeError
               else JSONArray n (skip_ws s2) (values @ [v])))"

text \<open>
  \<open>json.loads(s)\<close>: a text that starts with a byte order mark is refused; otherwise
  whitespace, one value, whitespace, and nothing more. A value, an object or an array
  that is entered takes one unit of fuel; two units for each character of the text and
  one more are always enough (\<open>json_loads_fuel\<close> below), so that the decoder's own limit on
  nesting is not part of the model.
\<close>

definition json_loads :: "pystr \<Rightarrow> error + json" where
  "json_loads s =
     (if prefix [65279] s then Inl JSONDecodeError
      else
        (case scan_once (Suc (length (s @ s))) (skip_ws s) of
           Inl e \<Rightarrow> Inl e
         | Inr (obj, r) \<Rightarrow> if skip_ws r = [] then Inr obj else Inl JSONDecodeError))"

section \<open>The pipeline of the script\<close>

text \<open>The fence is three backticks.\<close>

definition fence :: pystr where
  "fence = [96, 96, 96]"

text \<open>The opening-fence pattern \<open>^```(?:json)?\s*\<close> and the closing-fence pattern \<open>\s*```$\<close>.\<close>

definition open_fence_re :: "item list" where
  "open_fence_re = [Bol, Lit fence, Opt (str ''json''), Star Whitespace]"

definition close_fence_re :: "item list" where
  "close_fence_re = [Star Whitespace, Lit fence, Eol]"

text \<open>
  \<^verbatim>\<open>if text.startswith("```"):\<close> the two \<open>re.sub\<close> calls delete an opening fence (with
  an optional \<open>json\<close> tag and the whitespace after it) and a closing fence (with the
  whitespace before it).
\<close>

definition strip_fences :: "pystr \<Rightarrow> pystr" where
  "strip_fences text =
     (if startswith text fence
      then re_sub_empty close_fence_re (re_sub_empty open_fence_re text)
      else text)"

text \<open>
  The object pattern \<open>\{[^{}]*"problem"[^{}]*"func_signature"[^{}]*\}\<close> (\<open>re.DOTALL\<close>
  changes nothing: the pattern has no dot).
\<close>

definition quoted :: "string \<Rightarrow> pystr" where
  "quoted k = [34] @ str k @ [34]"

definition object_re :: "item list" where
  "object_re =
     [Lit [123], Star (NoneOf [123, 125]), Lit (quoted ''problem''),
      Star (NoneOf [123, 125]), Lit (quoted ''func_signature''),
      Star (NoneOf [123, 125]), Lit [125]]"

definition json_match :: "pystr \<Rightarrow> pystr option" where
  "json_match text = re_search object_re text"

text \<open>\<^verbatim>\<open>if json_match: text = json_match.group(0)\<close>\<close>

definition extract_object :: "pystr \<Rightarrow> pystr" where
  "extract_object text = (case json_match text of Some m \<Rightarrow> m | None \<Rightarrow> text)"

definition latex_commands :: "string list" where
  "latex_commands =
     [''le'', ''ge'', ''text'', ''sum'', ''prod'', ''int'', ''frac'', ''sqrt'', ''times'',
      ''div'', ''pm'', ''mp'', ''leq'', ''geq'', ''ne'', ''approx'', ''equiv'', ''cdot'',
      ''alpha'', ''beta'', ''gamma'', ''delta'', ''theta'', ''lambda'', ''mu'', ''sigma'',
      ''pi'', ''omega'']"

text \<open>
  The loop over \<open>latex_commands\<close>: for each command in turn, every backslash followed by
  the command gets a second backslash.
\<close>

definition escape_cmd :: "pystr \<Rightarrow> string \<Rightarrow> pystr" where
  "escape_cmd text cmd = replace text (backslash # str cmd) (backslash # backslash # str cmd)"

definition escape_latex :: "pystr \<Rightarrow> pystr" where
  "escape_latex text = foldl escape_cmd text latex_commands"

text \<open>
  The \<open>try\<close> block from the response text to the decoded data: \<open>Inr\<close> is the data that
  the script prints after \<open>Parsed successfully!\<close>, \<open>Inl\<close> the exception that its
  \<open>except\<close> branch prints.
\<close>

definition candidate :: "pystr \<Rightarrow> pystr" where
  "candidate response_text = escape_latex (extract_object (strip_fences (strip response_text)))"

definition normalize_response :: "pystr \<Rightarrow> error + json" where
  "normalize_response response_text = json_loads (candidate response_text)"

section \<open>Notions used to state the properties\<close>

text \<open>A text is brace-free when it has neither \<open>{\<close> nor \<open>}\<close>.\<close>

definition brace_free :: "pystr \<Rightarrow> bool" where
  "brace_free s \<longleftrightarrow> 123 \<notin> set s \<and> 125 \<notin> set s"

text \<open>The positions at which \<open>pat\<close> occurs in a text, in increasing order.\<close>

fun occurrences_from :: "nat \<Rightarrow> pystr \<Rightarrow> pystr \<Rightarrow> nat list" where
  "occurrences_from i pat [] = (if pat = [] then [i] else [])"
| "occurrences_from i pat (c # cs) =
     (if prefix pat (c # cs) then [i] else []) @ occurrences_from (Suc i) pat cs"

definition occurrences :: "pystr \<Rightarrow> pystr \<Rightarrow> nat list" where
  "occurrences pat s = occurrences_from 0 pat s"

text \<open>
  \<open>plain_commands\<close>: no command is empty or holds a backslash. \<open>escape_with ds\<close> is one
  pass over a text that puts, in front of each backslash, one more backslash for every
  command of \<open>ds\<close> that the text after the backslash starts with. For plain commands the
  loop of the script computes exactly this (\<open>escape_latex_eq\<close> below).
\<close>

definition plain_commands :: "string list \<Rightarrow> bool" where
  "plain_commands ds \<longleftrightarrow> list_all (\<lambda>d. d \<noteq> [] \<and> 92 \<notin> set (str d)) ds"

fun escape_with :: "string list \<Rightarrow> pystr \<Rightarrow> pystr" where
  "escape_with ds [] = []"
| "escape_with ds (c # cs) =
     (if c = 92 then replicate (length (filter (\<lambda>d. prefix (str d) cs) ds)) 92 else []) @
     c # escape_with ds cs"

text \<open>
  A plain value is a text that can stand between the quotes of a JSON string as it is and
  has no brace: no control character, quote, backslash or brace.
\<close>

definition plain_value :: "pystr \<Rightarrow> bool" where
  "plain_value p \<longleftrightarrow>
     list_all (\<lambda>c. 32 \<le> c \<and> c \<noteq> 34 \<and> c \<noteq> 92 \<and> c \<noteq> 123 \<and> c \<noteq> 125) p"

text \<open>
  Prose starts with an ASCII letter; the letters \<open>n\<close>, \<open>t\<close>, \<open>f\<close>, \<open>N\<close> and \<open>I\<close>, with
  which the JSON literals start, are left out.
\<close>

definition prose_start :: "nat \<Rightarrow> bool" where
  "prose_start c \<longleftrightarrow>
     (65 \<le> c \<and> c \<le> 90 \<or> 97 \<le> c \<and> c \<le> 122) \<and>
     c \<noteq> 110 \<and> c \<noteq> 116 \<and> c \<noteq> 102 \<and> c \<noteq> 78 \<and> c \<noteq> 73"

section \<open>The backtracking matcher\<close>

lemma re_match_no_bol: "Bol \<notin> set r \<Longrightarrow> re_match r b s = re_match r False s"
  by (induction r b s rule: re_match.induct) (auto split: option.splits)

lemma suffix_dropD: "suffix x (drop n s) \<Longrightarrow> suffix x s"
  by (meson suffix_drop suffix_order.trans)

lemma re_match_suffix: "re_match r b s = Some x \<Longrightarrow> suffix x s"
proof (induction r b s arbitrary: x rule: re_match.induct)
  case (4 l r b s)
  then show ?case by (auto split: if_splits dest: suffix_dropD)
next
  case (5 l r b s)
  then show ?case by (auto split: if_splits option.splits dest: suffix_dropD)
next
  case (7 cs r b c s)
  then show ?case by (auto split: if_splits option.splits intro: suffix_ConsI)
qed (auto split: if_splits)

lemma re_match_star_only: "re_match [Star cs] b s = Some (dropWhile (in_charset cs) s)"
  by (induction s arbitrary: b) auto

lemma option_case_id: "(case X of None \<Rightarrow> None | Some x \<Rightarrow> Some x) = X"
  by (cases X) simp_all

lemma re_match_star_lit:
  assumes "l \<noteq> []" "\<not> in_charset cs (hd l)" "Bol \<notin> set r"
  shows "re_match (Star cs # Lit l # r) b s = re_match (Lit l # r) False (dropWhile (in_charset cs) s)"
proof (induction s arbitrary: b)
  case Nil
  show ?case using assms by simp
next
  case (Cons c s)
  show ?case
  proof (cases "in_charset cs c")
    case True
    then have np: "\<not> prefix l (c # s)" using assms by (cases l) auto
    have step: "re_match (Star cs # Lit l # r) b (c # s) =
        (case re_match (Star cs # Lit l # r) False s of
           Some x \<Rightarrow> Some x | None \<Rightarrow> re_match (Lit l # r) b (c # s))"
      using True by simp
    have none: "re_match (Lit l # r) b (c # s) = None" using np by simp
    have dw: "dropWhile (in_charset cs) (c # s) = dropWhile (in_charset cs) s" using True by simp
    have ih: "re_match (Star cs # Lit l # r) False s =
        re_match (Lit l # r) False (dropWhile (in_charset cs) s)" by (rule Cons)
    show ?thesis by (subst step, subst none, subst dw, subst ih) (rule option_case_id)
  next
    case False
    then show ?thesis using assms re_match_no_bol[of "Lit l # r" b "c # s"] by simp
  qed
qed

lemma take_takeWhile_all: "n \<le> length (takeWhile P s) \<Longrightarrow> \<forall>c\<in>set (take n s). P c"
proof (induction s arbitrary: n)
  case (Cons a s)
  then show ?case by (cases n) (auto split: if_splits)
qed simp

lemma re_match_star_sound:
  assumes "Bol \<notin> set r"
  shows "re_match (Star cs # r) b s = Some x \<Longrightarrow>
    \<exists>n. n \<le> length (takeWhile (in_charset cs) s) \<and> re_match r False (drop n s) = Some x"
proof (induction s arbitrary: b)
  case Nil
  then show ?case using re_match_no_bol[OF assms, of b "[]"] by auto
next
  case (Cons c s)
  show ?case
  proof (cases "in_charset cs c \<and> re_match (Star cs # r) False s \<noteq> None")
    case True
    then have "re_match (Star cs # r) False s = Some x" using Cons.prems by auto
    from Cons.IH[OF this] obtain n where "n \<le> length (takeWhile (in_charset cs) s)"
      "re_match r False (drop n s) = Some x" by blast
    then show ?thesis using True by (intro exI[of _ "Suc n"]) auto
  next
    case False
    then have "re_match r b (c # s) = Some x" using Cons.prems by (auto split: if_splits option.splits)
    then show ?thesis using re_match_no_bol[OF assms, of b "c # s"] by (intro exI[of _ 0]) auto
  qed
qed

lemma re_match_star_complete:
  assumes "Bol \<notin> set r"
  shows "n \<le> length (takeWhile (in_charset cs) s) \<Longrightarrow> re_match r False (drop n s) = Some x \<Longrightarrow>
    \<exists>y. re_match (Star cs # r) b s = Some y"
proof (induction s arbitrary: b n)
  case Nil
  then show ?case using re_match_no_bol[OF assms, of b "[]"] by auto
next
  case (Cons c s)
  show ?case
  proof (cases n)
    case 0
    then have "re_match r b (c # s) = Some x" using Cons.prems re_match_no_bol[OF assms, of b "c # s"] by auto
    then show ?thesis by (auto split: option.splits)
  next
    case (Suc m)
    then have c: "in_charset cs c" and m: "m \<le> length (takeWhile (in_charset cs) s)"
      using Cons.prems by (auto split: if_splits)
    from Cons.IH[OF m, of False] Cons.prems Suc obtain y where "re_match (Star cs # r) False s = Some y" by auto
    then show ?thesis using c by auto
  qed
qed

section \<open>What the object pattern matches\<close>

lemma brace_free_append [simp]: "brace_free (a @ b) \<longleftrightarrow> brace_free a \<and> brace_free b"
  by (auto simp: brace_free_def)

lemma brace_free_quoted: "brace_free (quoted ''problem'')" "brace_free (quoted ''func_signature'')"
  by (simp_all add: brace_free_def quoted_def str_def)

lemma not_brace_iff: "in_charset (NoneOf [123, 125]) c \<longleftrightarrow> c \<noteq> 123 \<and> c \<noteq> 125"
  by auto

lemma brace_free_take:
  "n \<le> length (takeWhile (in_charset (NoneOf [123, 125])) s) \<Longrightarrow> brace_free (take n s)"
  using take_takeWhile_all[of n "in_charset (NoneOf [123, 125])" s]
  by (auto simp: brace_free_def)

lemma brace_free_takeWhile_len:
  "brace_free a \<Longrightarrow> length a \<le> length (takeWhile (in_charset (NoneOf [123, 125])) (a @ r))"
proof -
  assume "brace_free a"
  then have "\<forall>c\<in>set a. in_charset (NoneOf [123, 125]) c" by (auto simp: brace_free_def)
  then have "takeWhile (in_charset (NoneOf [123, 125])) (a @ r) = a @ takeWhile (in_charset (NoneOf [123, 125])) r"
    by (simp add: takeWhile_append2)
  then show ?thesis by simp
qed

lemma re_match_lit_some:
  "re_match (Lit l # r) b s = Some x \<Longrightarrow> s = l @ drop (length l) s \<and> re_match r (b \<and> l = []) (drop (length l) s) = Some x"
  by (auto split: if_splits simp: prefix_def)

lemma object_re_sound:
  assumes "re_match object_re b s = Some x"
  shows "\<exists>a b c. s = [123] @ a @ quoted ''problem'' @ b @ quoted ''func_signature'' @ c @ [125] @ x \<and>
        brace_free a \<and> brace_free b \<and> brace_free c"
proof -
  let ?nb = "NoneOf [123, 125]"
  let ?P = "quoted ''problem''" and ?F = "quoted ''func_signature''"
  let ?r3 = "[Lit [125]]"
  let ?r2 = "Lit ?F # Star ?nb # ?r3"
  let ?r1 = "Lit ?P # Star ?nb # ?r2"
  have m0: "re_match (Lit [123] # Star ?nb # ?r1) b s = Some x"
    using assms by (simp only: object_re_def)
  from re_match_lit_some[OF m0] obtain s1 where s: "s = [123] @ s1"
    and m1: "re_match (Star ?nb # ?r1) (b \<and> [123::nat] = []) s1 = Some x" by auto
  from re_match_star_sound[OF _ m1] obtain n1 where
    n1: "n1 \<le> length (takeWhile (in_charset ?nb) s1)" and
    m1': "re_match ?r1 False (drop n1 s1) = Some x" by auto
  from re_match_lit_some[OF m1'] obtain s2 where s1: "drop n1 s1 = ?P @ s2"
    and m2: "re_match (Star ?nb # ?r2) (False \<and> ?P = []) s2 = Some x" by auto
  from re_match_star_sound[OF _ m2] obtain n2 where
    n2: "n2 \<le> length (takeWhile (in_charset ?nb) s2)" and
    m2': "re_match ?r2 False (drop n2 s2) = Some x" by auto
  from re_match_lit_some[OF m2'] obtain s3 where s2: "drop n2 s2 = ?F @ s3"
    and m3: "re_match (Star ?nb # ?r3) (False \<and> ?F = []) s3 = Some x" by auto
  from re_match_star_sound[OF _ m3] obtain n3 where
    n3: "n3 \<le> length (takeWhile (in_charset ?nb) s3)" and
    m3': "re_match ?r3 False (drop n3 s3) = Some x" by auto
  from re_match_lit_some[OF m3'] have s3: "drop n3 s3 = [125] @ x" by auto
  have e1: "s1 = take n1 s1 @ ?P @ s2" using s1 append_take_drop_id[of n1 s1] by simp
  have e2: "s2 = take n2 s2 @ ?F @ s3" using s2 append_take_drop_id[of n2 s2] by simp
  have e3: "s3 = take n3 s3 @ [125] @ x" using s3 append_take_drop_id[of n3 s3] by simp
  have "s = [123] @ take n1 s1 @ ?P @ take n2 s2 @ ?F @ take n3 s3 @ [125] @ x"
    by (subst s, subst e1, subst e2, subst e3) simp
  then show ?thesis using brace_free_take[OF n1] brace_free_take[OF n2] brace_free_take[OF n3]
    by blast
qed

lemma object_re_complete:
  assumes "brace_free a" "brace_free b'" "brace_free c"
  shows "\<exists>y. re_match object_re b ([123] @ a @ quoted ''problem'' @ b' @ quoted ''func_signature'' @ c @ [125] @ x) = Some y"
proof -
  let ?nb = "NoneOf [123, 125]"
  let ?P = "quoted ''problem''" and ?F = "quoted ''func_signature''"
  let ?r3 = "[Lit [125]]"
  let ?r2 = "Lit ?F # Star ?nb # ?r3"
  let ?r1 = "Lit ?P # Star ?nb # ?r2"
  have m3': "re_match ?r3 False (drop (length c) (c @ [125] @ x)) = Some x" by simp
  from re_match_star_complete[OF _ brace_free_takeWhile_len[OF assms(3)] m3', of False]
  obtain y3 where m3: "re_match (Star ?nb # ?r3) False (c @ [125] @ x) = Some y3" by auto
  have m2': "re_match ?r2 False (drop (length b') (b' @ ?F @ c @ [125] @ x)) = Some y3"
    using m3 by simp
  from re_match_star_complete[OF _ brace_free_takeWhile_len[OF assms(2)] m2', of False]
  obtain y2 where m2: "re_match (Star ?nb # ?r2) False (b' @ ?F @ c @ [125] @ x) = Some y2" by auto
  have m1': "re_match ?r1 False (drop (length a) (a @ ?P @ b' @ ?F @ c @ [125] @ x)) = Some y2"
    using m2 by simp
  from re_match_star_complete[OF _ brace_free_takeWhile_len[OF assms(1)] m1', of False]
  obtain y1 where m1: "re_match (Star ?nb # ?r1) False (a @ ?P @ b' @ ?F @ c @ [125] @ x) = Some y1" by auto
  have "re_match (Lit [123] # Star ?nb # ?r1) b ([123] @ a @ ?P @ b' @ ?F @ c @ [125] @ x) = Some y1"
    using m1 by simp
  then show ?thesis by (simp only: object_re_def) blast
qed

lemma brace_split_unique:
  assumes "seg @ [125] @ x = seg' @ [125] @ x'" "brace_free seg" "brace_free seg'"
  shows "seg = seg' \<and> x = x'"
proof -
  have tw: "takeWhile (\<lambda>c. c \<noteq> 125) (u @ [125] @ v) = u" if "brace_free u" for u v :: pystr
  proof -
    have "\<And>c. c \<in> set u \<Longrightarrow> c \<noteq> 125" using that by (auto simp: brace_free_def)
    then show ?thesis by (simp add: takeWhile_append2)
  qed
  have a: "takeWhile (\<lambda>c. c \<noteq> 125) (seg @ [125] @ x) = seg" by (rule tw[OF assms(2)])
  have b: "takeWhile (\<lambda>c. c \<noteq> 125) (seg' @ [125] @ x') = seg'" by (rule tw[OF assms(3)])
  from a b assms(1) have "seg = seg'" by simp
  then show ?thesis using assms(1) by simp
qed

lemma object_re_iff:
  "re_match object_re b s = Some x \<longleftrightarrow>
     (\<exists>a b c. s = [123] @ a @ quoted ''problem'' @ b @ quoted ''func_signature'' @ c @ [125] @ x \<and>
        brace_free a \<and> brace_free b \<and> brace_free c)" (is "?L \<longleftrightarrow> ?R")
proof
  assume ?L then show ?R by (rule object_re_sound)
next
  assume ?R
  then obtain a b' c where s: "s = [123] @ a @ quoted ''problem'' @ b' @ quoted ''func_signature'' @ c @ [125] @ x"
    and bf: "brace_free a" "brace_free b'" "brace_free c" by blast
  from object_re_complete[OF bf, of b x] s obtain y where y: "re_match object_re b s = Some y" by auto
  from object_re_sound[OF y] obtain a2 b2 c2 where
    s2: "s = [123] @ a2 @ quoted ''problem'' @ b2 @ quoted ''func_signature'' @ c2 @ [125] @ y"
    and bf2: "brace_free a2" "brace_free b2" "brace_free c2" by blast
  have "(a @ quoted ''problem'' @ b' @ quoted ''func_signature'' @ c) @ [125] @ x =
        (a2 @ quoted ''problem'' @ b2 @ quoted ''func_signature'' @ c2) @ [125] @ y"
    using s s2 by simp
  from brace_split_unique[OF this] bf bf2 brace_free_quoted have "x = y" by simp
  then show ?L using y by simp
qed

lemma occurrences_from_mem: "i + length u \<in> set (occurrences_from i pat (u @ pat @ v))"
proof (induction u arbitrary: i)
  case Nil
  show ?case
  proof (cases "pat @ v")
    case Nil
    then show ?thesis by simp
  next
    case (Cons a list)
    have "prefix pat (pat @ v)" by simp
    then show ?thesis using Cons by simp
  qed
next
  case (Cons c u)
  from Cons[of "Suc i"] show ?case by simp
qed

lemma occurrences_mem: "s = u @ pat @ v \<Longrightarrow> length u \<in> set (occurrences pat s)"
  using occurrences_from_mem[of 0 u pat v] by (simp add: occurrences_def)

lemma re_search_none_iff:
  assumes "Bol \<notin> set r"
  shows "re_search_from r b s = None \<longleftrightarrow> (\<forall>u v. s = u @ v \<longrightarrow> re_match r False v = None)"
proof (induction s arbitrary: b)
  case Nil
  show ?case using re_match_no_bol[OF assms, of b "[]"] by (auto split: option.splits)
next
  case (Cons c s)
  have "re_search_from r b (c # s) = None \<longleftrightarrow>
        re_match r False (c # s) = None \<and> re_search_from r False s = None"
    using re_match_no_bol[OF assms, of b "c # s"] by (auto split: option.splits)
  also have "\<dots> \<longleftrightarrow> re_match r False (c # s) = None \<and> (\<forall>u v. s = u @ v \<longrightarrow> re_match r False v = None)"
    using Cons[of False] by simp
  also have "\<dots> \<longleftrightarrow> (\<forall>u v. c # s = u @ v \<longrightarrow> re_match r False v = None)"
    by (auto simp: Cons_eq_append_conv)
  finally show ?case .
qed

lemma re_search_some:
  assumes "Bol \<notin> set r"
  shows "re_search_from r b s = Some m \<Longrightarrow>
    \<exists>u x. s = u @ m @ x \<and> re_match r False (m @ x) = Some x \<and>
      (\<forall>u1 u2. u = u1 @ u2 \<longrightarrow> u2 \<noteq> [] \<longrightarrow> re_match r False (u2 @ m @ x) = None)"
proof (induction s arbitrary: b)
  case Nil
  then have "m = []" "re_match r False [] \<noteq> None"
    using re_match_no_bol[OF assms, of b "[]"] by (auto split: option.splits)
  moreover then obtain x where x: "re_match r False [] = Some x" by auto
  moreover from re_match_suffix[OF x] have "x = []" by simp
  ultimately show ?case by auto
next
  case (Cons c s)
  show ?case
  proof (cases "re_match r False (c # s)")
    case None
    then have "re_search_from r False s = Some m"
      using Cons.prems re_match_no_bol[OF assms, of b "c # s"] by simp
    from Cons.IH[OF this] obtain u x where ux: "s = u @ m @ x" "re_match r False (m @ x) = Some x"
      "\<forall>u1 u2. u = u1 @ u2 \<longrightarrow> u2 \<noteq> [] \<longrightarrow> re_match r False (u2 @ m @ x) = None" by blast
    have "\<forall>u1 u2. c # u = u1 @ u2 \<longrightarrow> u2 \<noteq> [] \<longrightarrow> re_match r False (u2 @ m @ x) = None"
      using ux None by (auto simp: Cons_eq_append_conv)
    then show ?thesis using ux by (intro exI[of _ "c # u"] exI[of _ x]) simp
  next
    case (Some x)
    from re_match_suffix[OF Some] obtain m' where m': "c # s = m' @ x" by (auto simp: suffix_def)
    have "m = take (length (c # s) - length x) (c # s)"
      using Cons.prems Some re_match_no_bol[OF assms, of b "c # s"] by simp
    then have "m = m'" using m' by simp
    then show ?thesis using m' Some by (intro exI[of _ "[]"] exI[of _ x]) simp
  qed
qed

lemma bol_object_re: "Bol \<notin> set object_re"
  by (simp add: object_re_def)

lemma object_re_needs_brace: "re_match object_re b (c # s) = Some x \<Longrightarrow> c = 123"
  by (simp add: object_re_def split: if_splits)

lemma json_match_skip:
  assumes "123 \<notin> set pre" "re_match object_re False (m @ x) = Some x" "m \<noteq> []"
  shows "re_search_from object_re b (pre @ m @ x) = Some m"
  using assms(1)
proof (induction pre arbitrary: b)
  case Nil
  obtain c s where cs: "m @ x = c # s" using assms(3) by (cases "m @ x") auto
  have "re_match object_re b (c # s) = Some x"
    using assms(2) cs re_match_no_bol[OF bol_object_re, of b "c # s"] by simp
  then have "re_search_from object_re b (c # s) = Some (take (length (c # s) - length x) (c # s))"
    by simp
  also have "take (length (c # s) - length x) (c # s) = m"
    unfolding cs[symmetric] by simp
  finally show ?case using cs by simp
next
  case (Cons p pre)
  have "re_match object_re b (p # pre @ m @ x) = None"
  proof (cases "re_match object_re b (p # pre @ m @ x)")
    case (Some y)
    from object_re_needs_brace[OF this] Cons.prems show ?thesis by simp
  qed simp
  then show ?case using Cons by simp
qed

lemma json_match_shape:
  assumes "json_match t = Some m"
  shows "\<exists>a b c. m = [123] @ a @ quoted ''problem'' @ b @ quoted ''func_signature'' @ c @ [125] \<and>
           brace_free a \<and> brace_free b \<and> brace_free c"
proof -
  from assms have "re_search_from object_re True t = Some m"
    by (simp add: json_match_def re_search_def)
  from re_search_some[OF bol_object_re this] obtain u x where
    "re_match object_re False (m @ x) = Some x" by blast
  from object_re_sound[OF this] show ?thesis by auto
qed


lemma json_match_selects:
  assumes "123 \<notin> set pre" "brace_free a" "brace_free b" "brace_free c"
  shows "json_match
           (pre @ [123] @ a @ quoted ''problem'' @ b @ quoted ''func_signature'' @ c @ [125] @ post) =
         Some ([123] @ a @ quoted ''problem'' @ b @ quoted ''func_signature'' @ c @ [125])"
proof -
  let ?m = "[123] @ a @ quoted ''problem'' @ b @ quoted ''func_signature'' @ c @ [125]"
  have "re_match object_re False (?m @ post) = Some post"
    using assms by (subst object_re_iff) auto
  from json_match_skip[OF assms(1) this, of True]
  have "json_match (pre @ ?m @ post) = Some ?m"
    by (simp add: json_match_def re_search_def)
  then show ?thesis by simp
qed

lemma json_match_no_brace: "123 \<notin> set t \<Longrightarrow> json_match t = None"
proof -
  assume n: "123 \<notin> set t"
  have "re_match object_re False v = None" if "t = u @ v" for u v
  proof (cases "re_match object_re False v")
    case (Some x)
    from object_re_sound[OF Some] obtain r where "v = [123] @ r" by auto
    with that n show ?thesis by simp
  qed simp
  then show ?thesis
    by (simp add: json_match_def re_search_def re_search_none_iff[OF bol_object_re])
qed


section \<open>What the escaping loop computes\<close>

lemma escape_with_Nil_cmds: "escape_with [] t = t"
  by (induction t) auto

lemma escape_with_plain: "92 \<notin> set w \<Longrightarrow> escape_with ds (w @ v) = w @ escape_with ds v"
  by (induction w) auto

lemma prefix_escape_with: "92 \<notin> set d \<Longrightarrow> prefix d (escape_with ds cs) \<longleftrightarrow> prefix d cs"
proof (induction d arbitrary: cs)
  case Nil
  show ?case by simp
next
  case (Cons x d)
  show ?case
  proof (cases cs)
    case Nil
    then show ?thesis by simp
  next
    case (Cons c cs')
    show ?thesis
    proof (cases "c = 92")
      case True
      have "hd (escape_with ds (c # cs')) = 92" using True
        by (cases "length (filter (\<lambda>d. prefix (str d) cs') ds)") auto
      moreover have "escape_with ds (c # cs') \<noteq> []" by simp
      ultimately have "\<not> prefix (x # d) (escape_with ds (c # cs'))"
        using Cons.prems by (cases "escape_with ds (c # cs')") auto
      then show ?thesis using True Cons.prems \<open>cs = c # cs'\<close> by auto
    next
      case False
      then show ?thesis using Cons.IH[of cs'] Cons.prems \<open>cs = c # cs'\<close> by auto
    qed
  qed
qed

lemma replace_scan_backslashes:
  assumes "x \<noteq> 92"
  shows "replace_scan (92 # x # d) new (replicate k 92 @ 92 # rest) =
         replicate k 92 @ replace_scan (92 # x # d) new (92 # rest)"
proof (induction k)
  case 0
  show ?case by simp
next
  case (Suc k)
  have "\<not> prefix (x # d) (replicate k 92 @ 92 # rest)"
    using assms by (cases k) auto
  then show ?case using Suc by simp
qed

lemma replace_escape_with:
  assumes "d \<noteq> []" "92 \<notin> set (str d)"
  shows "replace_scan (92 # str d) (92 # 92 # str d) (escape_with ds t) = escape_with (ds @ [d]) t"
proof (induction t rule: length_induct)
  case (1 t)
  obtain x d' where d: "str d = x # d'" "x \<noteq> 92"
    using assms by (cases d) (auto simp: str_def)
  show ?case
  proof (cases t)
    case Nil
    then show ?thesis by simp
  next
    case (Cons c cs)
    have ih: "replace_scan (92 # str d) (92 # 92 # str d) (escape_with ds u) = escape_with (ds @ [d]) u"
      if "length u < length t" for u using 1 that by blast
    show ?thesis
    proof (cases "c = 92")
      case False
      then show ?thesis using Cons ih[of cs] by simp
    next
      case True
      let ?k = "length (filter (\<lambda>d. prefix (str d) cs) ds)"
      have e: "escape_with ds t = replicate ?k 92 @ 92 # escape_with ds cs"
        using True Cons by simp
      have step: "replace_scan (92 # str d) (92 # 92 # str d) (escape_with ds t) =
          replicate ?k 92 @ replace_scan (92 # str d) (92 # 92 # str d) (92 # escape_with ds cs)"
        unfolding e d using replace_scan_backslashes[OF d(2)] by simp
      show ?thesis
      proof (cases "prefix (str d) cs")
        case p: True
        then obtain cs' where cs': "cs = str d @ cs'" by (auto simp: prefix_def)
        have pe: "prefix (92 # str d) (92 # escape_with ds cs)"
          using p prefix_escape_with[OF assms(2), of ds cs] by simp
        have dr: "drop (length (str d)) (escape_with ds cs) = escape_with ds cs'"
          using cs' escape_with_plain[OF assms(2), of ds cs'] by simp
        have "replace_scan (92 # str d) (92 # 92 # str d) (92 # escape_with ds cs) =
            (92 # 92 # str d) @ replace_scan (92 # str d) (92 # 92 # str d) (escape_with ds cs')"
          using pe dr by simp
        also have "\<dots> = (92 # 92 # str d) @ escape_with (ds @ [d]) cs'"
          using ih[of cs'] cs' Cons by simp
        also have "\<dots> = 92 # 92 # escape_with (ds @ [d]) cs"
          using cs' escape_with_plain[OF assms(2), of "ds @ [d]" cs'] by simp
        finally show ?thesis unfolding step using True Cons p
          by (simp add: replicate_app_Cons_same)
      next
        case np: False
        then have npe: "\<not> prefix (92 # str d) (92 # escape_with ds cs)"
          using prefix_escape_with[OF assms(2), of ds cs] by simp
        have "replace_scan (92 # str d) (92 # 92 # str d) (92 # escape_with ds cs) =
            92 # escape_with (ds @ [d]) cs"
          using npe ih[of cs] Cons by simp
        then show ?thesis unfolding step using True Cons np by simp
      qed
    qed
  qed
qed

lemma foldl_escape_cmd:
  "plain_commands ds \<Longrightarrow> foldl escape_cmd t ds = escape_with ds t"
proof (induction ds rule: rev_induct)
  case Nil
  show ?case by (simp add: escape_with_Nil_cmds)
next
  case (snoc d ds)
  then have d: "d \<noteq> []" "92 \<notin> set (str d)" and ds: "plain_commands ds"
    by (auto simp: plain_commands_def)
  show ?case using snoc.IH[OF ds] replace_escape_with[OF d, of ds t]
    by (simp add: escape_cmd_def replace_def backslash_def)
qed

lemma plain_latex_commands: "plain_commands latex_commands"
  by (simp add: plain_commands_def latex_commands_def str_def)

lemma escape_latex_eq: "escape_latex t = escape_with latex_commands t"
  by (simp add: escape_latex_def foldl_escape_cmd[OF plain_latex_commands])

lemma escape_with_no_command:
  "(\<forall>cmd\<in>set ds. \<not> sublist (92 # str cmd) t) \<Longrightarrow> escape_with ds t = t"
proof (induction t)
  case Nil
  show ?case by simp
next
  case (Cons c cs)
  have tl: "\<forall>cmd\<in>set ds. \<not> sublist (92 # str cmd) cs"
    using Cons.prems by (auto simp: sublist_Cons_right)
  have "filter (\<lambda>d. prefix (str d) cs) ds = []" if "c = 92"
  proof -
    have "\<not> prefix (str d) cs" if "d \<in> set ds" for d
    proof
      assume "prefix (str d) cs"
      then have "prefix (92 # str d) (c # cs)" using \<open>c = 92\<close> by simp
      then have "sublist (92 # str d) (c # cs)" by (rule prefix_imp_sublist)
      with Cons.prems that show False by blast
    qed
    then show ?thesis by (auto simp: filter_empty_conv)
  qed
  then show ?case using Cons.IH[OF tl] by simp
qed

lemma length_escape_with: "length t \<le> length (escape_with ds t)"
  by (induction t) auto

lemma length_escape_with_command:
  assumes "cmd \<in> set ds" "sublist (92 # str cmd) t"
  shows "length t < length (escape_with ds t)"
  using assms(2)
proof (induction t)
  case Nil
  then show ?case by simp
next
  case (Cons c cs)
  show ?case
  proof (cases "prefix (92 # str cmd) (c # cs)")
    case True
    then have "c = 92" "prefix (str cmd) cs" by auto
    then have "cmd \<in> set (filter (\<lambda>d. prefix (str d) cs) ds)" using assms(1) by simp
    then have "0 < length (filter (\<lambda>d. prefix (str d) cs) ds)" by (rule length_pos_if_in_set)
    then obtain k where k: "length (filter (\<lambda>d. prefix (str d) cs) ds) = Suc k"
      using gr0_implies_Suc by blast
    have "length (escape_with ds (c # cs)) = Suc k + Suc (length (escape_with ds cs))"
      using \<open>c = 92\<close> by (simp add: k)
    then show ?thesis using length_escape_with[of cs ds] by simp
  next
    case False
    then have "sublist (92 # str cmd) cs" using Cons.prems by (auto simp: sublist_Cons_right)
    from Cons.IH[OF this] show ?thesis by simp
  qed
qed

lemma prefix_before_backslash:
  "92 \<notin> set p \<Longrightarrow> b = [] \<or> hd b = 92 \<Longrightarrow> prefix p (r @ b) \<longleftrightarrow> prefix p r"
proof (induction p arbitrary: r)
  case Nil
  show ?case by simp
next
  case (Cons x p)
  show ?case
  proof (cases r)
    case Nil
    then show ?thesis using Cons.prems by (cases b) auto
  next
    case (Cons y r')
    then show ?thesis using Cons.IH[of r'] Cons.prems by auto
  qed
qed

lemma escape_with_split:
  assumes "\<forall>d\<in>set ds. 92 \<notin> set (str d)" "b = [] \<or> hd b = 92"
  shows "escape_with ds (u @ b) = escape_with ds u @ escape_with ds b"
proof (induction u)
  case Nil
  show ?case by simp
next
  case (Cons c u)
  have "filter (\<lambda>d. prefix (str d) (u @ b)) ds = filter (\<lambda>d. prefix (str d) u) ds"
    using assms prefix_before_backslash[of _ b u] by (intro filter_cong) auto
  then show ?case using Cons by simp
qed

lemma plain_commandsD: "plain_commands ds \<Longrightarrow> \<forall>d\<in>set ds. 92 \<notin> set (str d)"
  by (auto simp: plain_commands_def list_all_iff)

lemma escape_with_keeps_command:
  assumes "plain_commands ds" "cmd \<in> set ds" "sublist (92 # str cmd) t"
  shows "sublist (92 # str cmd) (escape_with ds t)"
proof -
  from assms(3) obtain u v where t: "t = u @ (92 # str cmd) @ v" by (auto simp: sublist_def)
  let ?k = "length (filter (\<lambda>d. prefix (str d) (str cmd @ v)) ds)"
  have n: "92 \<notin> set (str cmd)" using plain_commandsD[OF assms(1)] assms(2) by blast
  have "escape_with ds t = escape_with ds u @ escape_with ds (92 # str cmd @ v)"
    unfolding t using escape_with_split[OF plain_commandsD[OF assms(1)], of "92 # str cmd @ v" u]
    by simp
  also have "\<dots> = (escape_with ds u @ replicate ?k 92) @ (92 # str cmd) @ escape_with ds v"
    using escape_with_plain[OF n, of ds v] by simp
  finally show ?thesis unfolding sublist_def by blast
qed


section \<open>What the fence patterns delete\<close>

lemma dropWhile_hd_id: "xs \<noteq> [] \<Longrightarrow> \<not> P (hd xs) \<Longrightarrow> dropWhile P xs = xs"
  by (cases xs) auto

lemma strip_id: "s \<noteq> [] \<Longrightarrow> \<not> isspace (hd s) \<Longrightarrow> \<not> isspace (last s) \<Longrightarrow> strip s = s"
proof -
  assume s: "s \<noteq> []" "\<not> isspace (hd s)" "\<not> isspace (last s)"
  have a: "dropWhile isspace s = s" using s(1,2) by (rule dropWhile_hd_id)
  have "hd (rev s) = last s" using s(1) by (simp add: hd_rev)
  then have "dropWhile isspace (rev s) = rev s" using s dropWhile_hd_id[of "rev s" isspace] by simp
  then show ?thesis using a by (simp add: strip_def)
qed

lemma rev_split: "xs = rev (dropWhile P (rev xs)) @ rev (takeWhile P (rev xs))"
proof -
  have "rev (takeWhile P (rev xs) @ dropWhile P (rev xs)) = xs"
    by (simp only: takeWhile_dropWhile_id rev_rev_ident)
  then show ?thesis by (simp only: rev_append)
qed

lemma strip_decompose:
  obtains w1 w2 where "R = w1 @ strip R @ w2" "\<forall>c\<in>set w1. isspace c" "\<forall>c\<in>set w2. isspace c"
    "strip R = [] \<or> (\<not> isspace (hd (strip R)) \<and> \<not> isspace (last (strip R)))"
proof -
  let ?R' = "dropWhile isspace R"
  let ?w1 = "takeWhile isspace R"
  let ?w2 = "rev (takeWhile isspace (rev ?R'))"
  have r: "R = ?w1 @ ?R'" by simp
  have r': "?R' = strip R @ ?w2" unfolding strip_def by (rule rev_split)
  have w1: "\<forall>c\<in>set ?w1. isspace c" by (auto dest: set_takeWhileD)
  have w2: "\<forall>c\<in>set ?w2. isspace c" by (auto dest: set_takeWhileD)
  have e: "\<not> isspace (hd (strip R)) \<and> \<not> isspace (last (strip R))" if ne: "strip R \<noteq> []"
  proof -
    have d: "dropWhile isspace (rev ?R') \<noteq> []" using ne by (simp add: strip_def)
    have "last (strip R) = hd (dropWhile isspace (rev ?R'))"
      using d by (simp add: strip_def last_rev)
    then have l: "\<not> isspace (last (strip R))" using hd_dropWhile[OF d] by simp
    have "?R' \<noteq> []" using r' ne by (metis Nil_is_append_conv)
    from hd_dropWhile[OF this] have "\<not> isspace (hd ?R')" .
    moreover have "hd ?R' = hd (strip R)" using ne by (subst r') simp
    ultimately show ?thesis using l by simp
  qed
  show ?thesis
    using that[of ?w1 ?w2] r r' w1 w2 e by (metis append.assoc)
qed

lemma in_charset_Whitespace: "in_charset Whitespace = isspace"
  by (rule ext) simp

lemma re_sub_from_bol: "re_sub_from (Bol # r) False s = s"
  by (induction s) auto

lemma dropWhile_length_le: "length (dropWhile P s) \<le> length s"
  by (induction s) auto

lemma open_fence_sub:
  "re_sub_empty open_fence_re (fence @ str ''json'' @ rest) = dropWhile isspace rest"
proof -
  have m: "re_match open_fence_re True (fence @ str ''json'' @ rest) = Some (dropWhile isspace rest)"
    by (simp add: open_fence_re_def fence_def str_def re_match_star_only in_charset_Whitespace)
  have l: "length (dropWhile isspace rest) < length (fence @ str ''json'' @ rest)"
    using dropWhile_length_le[of isspace rest] by (simp add: fence_def)
  obtain c cs where cs: "fence @ str ''json'' @ rest = c # cs" by (simp add: fence_def)
  have "re_sub_from open_fence_re True (c # cs) = re_sub_from open_fence_re False (dropWhile isspace rest)"
    using m l unfolding cs by simp
  also have "\<dots> = dropWhile isspace rest"
    by (simp add: open_fence_re_def re_sub_from_bol)
  finally show ?thesis by (simp add: re_sub_empty_def cs)
qed

lemma close_fence_match:
  "re_match close_fence_re b s =
     (if prefix fence (dropWhile isspace s) \<and>
         (drop 3 (dropWhile isspace s) = [] \<or> drop 3 (dropWhile isspace s) = [10])
      then Some (drop 3 (dropWhile isspace s)) else None)"
proof -
  have "re_match close_fence_re b s = re_match [Lit fence, Eol] False (dropWhile (in_charset Whitespace) s)"
    unfolding close_fence_re_def
    by (rule re_match_star_lit) (simp_all add: fence_def isspace_def)
  moreover have "length fence = 3" by (simp add: fence_def)
  ultimately show ?thesis by (simp add: in_charset_Whitespace)
qed

lemma dropWhile_append_last:
  assumes "xs \<noteq> []" "\<not> P (last xs)"
  shows "dropWhile P (xs @ ys) = dropWhile P xs @ ys \<and> dropWhile P xs \<noteq> []"
proof -
  have m: "last xs \<in> set xs" using assms(1) by simp
  have "dropWhile P (xs @ ys) = dropWhile P xs @ ys"
    using dropWhile_append1[of "last xs" xs P ys] m assms(2) by simp
  moreover have "dropWhile P xs \<noteq> []" using m assms(2) by (auto simp: dropWhile_eq_Nil_conv)
  ultimately show ?thesis by simp
qed

lemma dropWhile_space_fence:
  assumes "\<forall>c\<in>set xs. isspace c"
  shows "dropWhile isspace (xs @ fence) = fence"
proof -
  have "dropWhile isspace (xs @ fence) = dropWhile isspace fence"
    using assms by (intro dropWhile_append2) auto
  also have "\<dots> = fence" by (simp add: fence_def isspace_def)
  finally show ?thesis .
qed

lemma long_not_short: "2 \<le> length (X :: nat list) \<Longrightarrow> X \<noteq> [] \<and> X \<noteq> [10]"
  by auto

lemma close_fence_sub:
  assumes "\<forall>c\<in>set w. isspace c" "u = [] \<or> (\<not> isspace (last u) \<and> w \<noteq> [])"
  shows "re_sub_from close_fence_re b (u @ w @ fence) = u"
  using assms(2)
proof (induction u arbitrary: b)
  case Nil
  have d: "dropWhile isspace (w @ fence) = fence"
    using assms(1) by (rule dropWhile_space_fence)
  obtain c cs where cs: "w @ fence = c # cs" by (cases w) (auto simp: fence_def)
  have "re_match close_fence_re b (c # cs) = Some []"
    unfolding cs[symmetric] close_fence_match d by (simp add: fence_def)
  then have "re_sub_from close_fence_re b (c # cs) = []" by simp
  then show ?case by (simp add: cs)
next
  case (Cons c u)
  then have l: "\<not> isspace (last (c # u))" and w: "w \<noteq> []" by auto
  have cu: "c # u \<noteq> []" by simp
  have dw: "dropWhile isspace ((c # u) @ w @ fence) = dropWhile isspace (c # u) @ w @ fence"
    and ne: "dropWhile isspace (c # u) \<noteq> []"
    using dropWhile_append_last[of "c # u" isspace "w @ fence"] cu l by blast+
  define D where "D = dropWhile isspace ((c # u) @ w @ fence)"
  have len: "5 \<le> length D"
    unfolding D_def dw using ne w by (cases "dropWhile isspace (c # u)"; cases w) (auto simp: fence_def)
  then have "2 \<le> length (drop 3 D)" by simp
  then have "drop 3 D \<noteq> [] \<and> drop 3 D \<noteq> [10]" by (rule long_not_short)
  then have "re_match close_fence_re b ((c # u) @ w @ fence) = None"
    unfolding close_fence_match D_def[symmetric] by simp
  then have none: "re_match close_fence_re b (c # u @ w @ fence) = None" by simp
  have u: "u = [] \<or> (\<not> isspace (last u) \<and> w \<noteq> [])" using l w by (cases u) auto
  show ?case using none Cons.IH[OF u, of False] by simp
qed

lemma strip_fences_wrapped:
  "strip_fences (strip (fence @ str ''json'' @ [10] @ R @ [10] @ fence)) = strip R"
proof -
  let ?W = "fence @ str ''json'' @ [10] @ R @ [10] @ fence"
  have sw: "strip ?W = ?W"
    by (rule strip_id) (simp_all add: fence_def isspace_def)
  have st: "startswith ?W fence" by (simp add: startswith_def)
  have op: "re_sub_empty open_fence_re ?W = dropWhile isspace (R @ [10] @ fence)"
    using open_fence_sub[of "[10] @ R @ [10] @ fence"] by (simp add: isspace_def)
  obtain w1 w2 where R: "R = w1 @ strip R @ w2" and w1: "\<forall>c\<in>set w1. isspace c"
    and w2: "\<forall>c\<in>set w2. isspace c"
    and core: "strip R = [] \<or> (\<not> isspace (hd (strip R)) \<and> \<not> isspace (last (strip R)))"
    by (rule strip_decompose)
  have "re_sub_empty close_fence_re (dropWhile isspace (R @ [10] @ fence)) = strip R"
  proof (cases "strip R = []")
    case True
    then have Rw: "R = w1 @ w2" using R by simp
    have "\<forall>c\<in>set (w1 @ w2). isspace c" using w1 w2 by auto
    then have "\<forall>c\<in>set R. isspace c" by (subst Rw)
    then have "\<forall>c\<in>set (R @ [10]). isspace c" by (simp add: isspace_def)
    then have "dropWhile isspace ((R @ [10]) @ fence) = fence"
      by (rule dropWhile_space_fence)
    then have "dropWhile isspace (R @ [10] @ fence) = fence" by simp
    then show ?thesis using close_fence_sub[of "[]" "[]" True] True
      by (simp add: re_sub_empty_def)
  next
    case False
    then have h: "\<not> isspace (hd (strip R))" and l: "\<not> isspace (last (strip R))" using core by auto
    have "dropWhile isspace (w1 @ (strip R @ w2 @ [10] @ fence)) = dropWhile isspace (strip R @ w2 @ [10] @ fence)"
      using w1 by (simp add: dropWhile_append2)
    also have "\<dots> = strip R @ w2 @ [10] @ fence"
      using False h by (cases "strip R") auto
    finally have d: "dropWhile isspace (R @ [10] @ fence) = strip R @ (w2 @ [10]) @ fence"
      by (subst R) simp
    have "\<forall>c\<in>set (w2 @ [10]). isspace c" using w2 by (simp add: isspace_def)
    from close_fence_sub[OF this, of "strip R" True] l show ?thesis
      unfolding d by (simp add: re_sub_empty_def)
  qed
  then show ?thesis using sw st op by (simp add: strip_fences_def)
qed

section \<open>The decoder never runs out of fuel\<close>

text \<open>
  A successful call of the decoder consumes at least one character, and with two units of
  fuel for each character of the text, and one more, no call finds the fuel used up.
\<close>

lemma with_char_Inr: "with_char c res = Inr (x, r) \<Longrightarrow> \<exists>y. res = Inr (y, r)"
  by (auto simp: with_char_def split: sum.splits)

lemma with_char_Inl: "with_char c res = Inl e \<Longrightarrow> res = Inl e"
  by (auto simp: with_char_def split: sum.splits)

lemma scanstring_shorter: "scanstring s = Inr (x, r) \<Longrightarrow> length r < length s"
proof (induction s arbitrary: x rule: scanstring.induct)
  case 1
  then show ?case by simp
next
  case (2 c cs)
  show ?case
  proof (cases "c = 34")
    case True
    then show ?thesis using "2.prems" by simp
  next
    case False
    then show ?thesis using 2
      by (auto split: if_splits list.splits option.splits dest!: with_char_Inr)
        (fastforce+)?
  qed
qed

lemma scanstring_error: "scanstring s = Inl e \<Longrightarrow> e = JSONDecodeError"
proof (induction s rule: scanstring.induct)
  case 1
  then show ?case by simp
next
  case (2 c cs)
  then show ?case
    by (auto split: if_splits list.splits option.splits dest!: with_char_Inl)
qed


lemma skip_ws_le: "length (skip_ws s) \<le> length s"
  by (simp add: skip_ws_def dropWhile_length_le)

lemma match_frac_le: "match_frac s = (f, r) \<Longrightarrow> length r \<le> length s"
  using dropWhile_length_le[of isdigit "tl s"]
  by (auto simp: match_frac_def split: list.splits if_splits)

lemma match_exp_le: "match_exp s = (f, r) \<Longrightarrow> length r \<le> length s"
proof (cases s)
  case Nil
  then show "match_exp s = (f, r) \<Longrightarrow> length r \<le> length s" by (simp add: match_exp_def)
next
  case (Cons c t)
  assume m: "match_exp s = (f, r)"
  let ?sign = "if prefix [45] t \<or> prefix [43] t then take 1 t else []"
  have "length (dropWhile isdigit (drop (length ?sign) t)) \<le> length t"
    using dropWhile_length_le[of isdigit "drop (length ?sign) t"] by simp
  then show "length r \<le> length s"
    using m Cons by (auto simp: match_exp_def Let_def split: if_splits)
qed

lemma match_integer_shorter: "match_integer s = Some (i, r) \<Longrightarrow> length r < length s"
proof -
  assume m: "match_integer s = Some (i, r)"
  let ?sign = "if prefix [45] s then [45::nat] else []"
  obtain d t where dt: "drop (length ?sign) s = d # t"
    using m by (cases "drop (length ?sign) s") (auto simp: match_integer_def Let_def)
  have "length (d # t) \<le> length s" unfolding dt[symmetric] by simp
  then have t: "length t < length s" by simp
  have "length r \<le> length t"
    using m dt dropWhile_length_le[of isdigit t]
    by (auto simp: match_integer_def Let_def split: if_splits)
  then show ?thesis using t by simp
qed

lemma match_number_shorter: "match_number s = Some (v, r) \<Longrightarrow> length r < length s"
proof -
  assume m: "match_number s = Some (v, r)"
  then obtain i s1 where i: "match_integer s = Some (i, s1)"
    by (cases "match_integer s") (auto simp: match_number_def)
  obtain f s2 where f: "match_frac s1 = (f, s2)" by (cases "match_frac s1")
  obtain e s3 where e: "match_exp s2 = (e, s3)" by (cases "match_exp s2")
  have "r = s3" using m i f e by (auto simp: match_number_def split: if_splits)
  then show ?thesis
    using match_integer_shorter[OF i] match_frac_le[OF f] match_exp_le[OF e] by simp
qed

lemma skip_ws_ConsD: "skip_ws y = a # b \<Longrightarrow> length b < length y"
  using skip_ws_le[of y] by simp

lemma drop_shorter: "0 < k \<Longrightarrow> length (drop k (c # cs)) < length (c # cs)"
  by simp

lemma decoder_consumes:
  "scan_once n s = Inr (v, r) \<Longrightarrow> length r < length s"
  "JSONObject n s ps = Inr (v, r) \<Longrightarrow> length r < length s"
  "JSONArray n s vs = Inr (v, r) \<Longrightarrow> length r < length s"
proof (induction n s and n s ps and n s vs arbitrary: v r and v r and v r
    rule: scan_once_JSONObject_JSONArray.induct)
  case (3 n c cs)
  show ?case
  proof (cases "c = 34")
    case True
    then obtain x where "scanstring cs = Inr (x, r)"
      using "3.prems" by (auto split: sum.splits)
    from scanstring_shorter[OF this] show ?thesis by simp
  next
    case c34: False
    show ?thesis
    proof (cases "c = 123")
      case True
      then obtain d r' where d: "skip_ws cs = d # r'"
        using "3.prems" c34 by (cases "skip_ws cs") auto
      from skip_ws_ConsD[OF d] have l: "length r' < length cs" .
      show ?thesis
      proof (cases "d = 125")
        case True
        then show ?thesis using "3.prems" c34 \<open>c = 123\<close> d l by simp
      next
        case False
        then have "d = 34" "JSONObject n r' [] = Inr (v, r)"
          using "3.prems" c34 \<open>c = 123\<close> d by (auto split: if_splits)
        from "3.IH"(1)[OF c34 \<open>c = 123\<close> d False this] l show ?thesis by simp
      qed
    next
      case c123: False
      show ?thesis
      proof (cases "c = 91")
        case True
        show ?thesis
        proof (cases "prefix [93] (skip_ws cs)")
          case p: True
          then have "r = drop 1 (skip_ws cs)" using "3.prems" c34 c123 True by simp
          then show ?thesis using skip_ws_le[of cs] by simp
        next
          case p: False
          then have "JSONArray n (skip_ws cs) [] = Inr (v, r)"
            using "3.prems" c34 c123 True by simp
          from "3.IH"(2)[OF c34 c123 True p this] skip_ws_le[of cs] show ?thesis by simp
        qed
      next
        case c91: False
        have "scan_once (Suc n) (c # cs) =
          (if prefix (str ''null'') (c # cs) then Inr (JNull, drop 4 (c # cs))
           else if prefix (str ''true'') (c # cs) then Inr (JBool True, drop 4 (c # cs))
           else if prefix (str ''false'') (c # cs) then Inr (JBool False, drop 5 (c # cs))
           else
             (case match_number (c # cs) of
                Some (res, r) \<Rightarrow> (case res of Inl e \<Rightarrow> Inl e | Inr v \<Rightarrow> Inr (v, r))
              | None \<Rightarrow>
                  if prefix (str ''NaN'') (c # cs) then Inr (JFloat (str ''NaN''), drop 3 (c # cs))
                  else if prefix (str ''Infinity'') (c # cs)
                  then Inr (JFloat (str ''Infinity''), drop 8 (c # cs))
                  else if prefix (str ''-Infinity'') (c # cs)
                  then Inr (JFloat (str ''-Infinity''), drop 9 (c # cs))
                  else Inl JSONDecodeError))"
          using c34 c123 c91 by simp
        then have "(\<exists>k>0. r = drop k (c # cs)) \<or> match_number (c # cs) = Some (Inr v, r)"
          using "3.prems"
          by (auto split: if_splits option.splits sum.splits simp del: scan_once.simps)
        then show ?thesis using match_number_shorter[of "c # cs" "Inr v" r] drop_shorter[of _ c cs]
          by auto
      qed
    qed
  qed
next
  case (5 n s pairs)
  from "5.prems" obtain key s1 where k: "scanstring s = Inr (key, s1)"
    by (cases "scanstring s") auto
  from "5.prems" k obtain c s2 where c: "skip_ws s1 = c # s2"
    by (cases "skip_ws s1") auto
  have c58: "\<not> c \<noteq> 58" using "5.prems" k c by (auto split: if_splits)
  from "5.prems" k c c58 obtain v' s3 where v': "scan_once n (skip_ws s2) = Inr (v', s3)"
    by (cases "scan_once n (skip_ws s2)") auto
  from "5.prems" k c c58 v' obtain d s4 where d: "skip_ws s3 = d # s4"
    by (cases "skip_ws s3") auto
  have l3: "length s3 < length s"
    using scanstring_shorter[OF k] skip_ws_ConsD[OF c] skip_ws_le[of s2]
      "5.IH"(1)[OF k refl c c58 v'] by simp
  show ?case
  proof (cases "d = 125")
    case True
    then have "r = s4" using "5.prems" k c c58 v' d by simp
    then show ?thesis using l3 skip_ws_ConsD[OF d] by simp
  next
    case False
    then have d44: "\<not> d \<noteq> 44" using "5.prems" k c c58 v' d by (auto split: if_splits)
    from "5.prems" k c c58 v' d False d44 obtain q s5 where q: "skip_ws s4 = q # s5"
      by (cases "skip_ws s4") auto
    have q34: "\<not> q \<noteq> 34" using "5.prems" k c c58 v' d False d44 q by (auto split: if_splits)
    have "JSONObject n s5 (pairs @ [(key, v')]) = Inr (v, r)"
      using "5.prems" k c c58 v' d False d44 q q34 by simp
    from "5.IH"(2)[OF k refl c c58 v' refl d False d44 q q34 this]
    show ?thesis using l3 skip_ws_ConsD[OF d] skip_ws_ConsD[OF q] by simp
  qed
next
  case (7 n s vals)
  from "7.prems" obtain v' s1 where v': "scan_once n s = Inr (v', s1)"
    by (cases "scan_once n s") auto
  from "7.prems" v' obtain d s2 where d: "skip_ws s1 = d # s2"
    by (cases "skip_ws s1") auto
  have l1: "length s1 < length s" using "7.IH"(1)[OF v'] .
  show ?case
  proof (cases "d = 93")
    case True
    then have "r = s2" using "7.prems" v' d by simp
    then show ?thesis using l1 skip_ws_ConsD[OF d] by simp
  next
    case False
    then have d44: "\<not> d \<noteq> 44" using "7.prems" v' d by (auto split: if_splits)
    have "JSONArray n (skip_ws s2) (vals @ [v']) = Inr (v, r)"
      using "7.prems" v' d False d44 by simp
    from "7.IH"(2)[OF v' refl d False d44 this]
    show ?thesis using l1 skip_ws_ConsD[OF d] skip_ws_le[of s2] by simp
  qed
qed simp_all

lemma decoder_fuel:
  "2 * length s < n \<Longrightarrow> scan_once n s \<noteq> Inl RecursionError"
  "2 * length s + 1 < n \<Longrightarrow> JSONObject n s ps \<noteq> Inl RecursionError"
  "2 * length s + 1 < n \<Longrightarrow> JSONArray n s vs \<noteq> Inl RecursionError"
proof (induction n s and n s ps and n s vs rule: scan_once_JSONObject_JSONArray.induct)
  case (3 n c cs)
  show ?case
  proof
    assume e: "scan_once (Suc n) (c # cs) = Inl RecursionError"
    show False
    proof (cases "c = 34")
      case True
      then have "scanstring cs = Inl RecursionError" using e by (auto split: sum.splits)
      from scanstring_error[OF this] show False by simp
    next
      case c34: False
      show False
      proof (cases "c = 123")
        case True
        then obtain d r' where d: "skip_ws cs = d # r'"
          using e c34 by (cases "skip_ws cs") auto
        then have o: "d \<noteq> 125" "d = 34" "JSONObject n r' [] = Inl RecursionError"
          using e c34 True by (auto split: if_splits)
        have "2 * length r' + 1 < n" using skip_ws_ConsD[OF d] "3.prems" by simp
        from "3.IH"(1)[OF c34 True d o(1,2) this] o(3) show False by simp
      next
        case c123: False
        show False
        proof (cases "c = 91")
          case True
          then have p: "\<not> prefix [93] (skip_ws cs)"
            and a: "JSONArray n (skip_ws cs) [] = Inl RecursionError"
            using e c34 c123 by (auto split: if_splits)
          have "2 * length (skip_ws cs) + 1 < n" using skip_ws_le[of cs] "3.prems" by simp
          from "3.IH"(2)[OF c34 c123 True p this] a show False by simp
        next
          case False
          then show False using e c34 c123
            by (auto simp: match_number_def parse_int_def Let_def
                split: if_splits option.splits sum.splits prod.splits)
        qed
      qed
    qed
  qed
next
  case (5 n s pairs)
  show ?case
  proof
    assume e: "JSONObject (Suc n) s pairs = Inl RecursionError"
    from e scanstring_error[of s] obtain key s1 where k: "scanstring s = Inr (key, s1)"
      by (cases "scanstring s") auto
    from e k obtain c s2 where c: "skip_ws s1 = c # s2"
      by (cases "skip_ws s1") auto
    have c58: "\<not> c \<noteq> 58" using e k c by (auto split: if_splits)
    have l2: "length (skip_ws s2) + 2 \<le> length s"
      using scanstring_shorter[OF k] skip_ws_ConsD[OF c] skip_ws_le[of s2] by simp
    then have f1: "2 * length (skip_ws s2) < n" using "5.prems" by simp
    from "5.IH"(1)[OF k refl c c58 f1] e k c c58
    obtain v' s3 where v': "scan_once n (skip_ws s2) = Inr (v', s3)"
      by (cases "scan_once n (skip_ws s2)") auto
    from e k c c58 v' obtain d s4 where d: "skip_ws s3 = d # s4"
      by (cases "skip_ws s3") auto
    have d125: "d \<noteq> 125" and d44: "\<not> d \<noteq> 44"
      using e k c c58 v' d by (auto split: if_splits)
    from e k c c58 v' d d125 d44 obtain q s5 where q: "skip_ws s4 = q # s5"
      by (cases "skip_ws s4") auto
    have q34: "\<not> q \<noteq> 34" using e k c c58 v' d d125 d44 q by (auto split: if_splits)
    have o: "JSONObject n s5 (pairs @ [(key, v')]) = Inl RecursionError"
      using e k c c58 v' d d125 d44 q q34 by simp
    have "length s5 < length s"
      using decoder_consumes(1)[OF v'] l2 skip_ws_ConsD[OF d] skip_ws_ConsD[OF q] by simp
    then have "2 * length s5 + 1 < n" using "5.prems" by simp
    from "5.IH"(2)[OF k refl c c58 v' refl d d125 d44 q q34 this] o show False by simp
  qed
next
  case (7 n s vals)
  show ?case
  proof
    assume e: "JSONArray (Suc n) s vals = Inl RecursionError"
    have "2 * length s < n" using "7.prems" by simp
    from "7.IH"(1)[OF this] e obtain v' s1 where v': "scan_once n s = Inr (v', s1)"
      by (cases "scan_once n s") auto
    from e v' obtain d s2 where d: "skip_ws s1 = d # s2"
      by (cases "skip_ws s1") auto
    have d93: "d \<noteq> 93" and d44: "\<not> d \<noteq> 44"
      using e v' d by (auto split: if_splits)
    have a: "JSONArray n (skip_ws s2) (vals @ [v']) = Inl RecursionError"
      using e v' d d93 d44 by simp
    have "length (skip_ws s2) < length s"
      using decoder_consumes(1)[OF v'] skip_ws_ConsD[OF d] skip_ws_le[of s2] by simp
    then have "2 * length (skip_ws s2) + 1 < n" using "7.prems" by simp
    from "7.IH"(2)[OF v' refl d d93 d44 this] a show False by simp
  qed
qed simp_all

lemma json_loads_fuel: "json_loads s \<noteq> Inl RecursionError"
proof -
  have "2 * length (skip_ws s) < Suc (length (s @ s))" using skip_ws_le[of s] by simp
  from decoder_fuel(1)[OF this] show ?thesis
    by (auto simp: json_loads_def split: sum.splits if_splits)
qed

section \<open>Stages that change nothing, and the decoder on two shapes of text\<close>

lemma scanstring_plain:
  "\<forall>c\<in>set p. 32 \<le> c \<and> c \<noteq> 34 \<and> c \<noteq> 92 \<Longrightarrow> scanstring (p @ 34 # r) = Inr (p, r)"
  by (induction p) (auto simp: with_char_def)

lemma plain_value_scan: "plain_value p \<Longrightarrow> scanstring (p @ 34 # r) = Inr (p, r)"
  by (rule scanstring_plain) (auto simp: plain_value_def list_all_iff)

lemma plain_value_sets: "plain_value p \<Longrightarrow> brace_free p \<and> 92 \<notin> set p"
  by (auto simp: plain_value_def list_all_iff brace_free_def)

lemma skip_ws_Cons: "skip_ws (c # s) = (if is_json_ws c then skip_ws s else c # s)"
  by (simp add: skip_ws_def)

lemma JSONObject_two_members:
  assumes "plain_value p" "plain_value f"
  shows \<open>JSONObject (Suc (Suc (Suc n)))
     (str ''problem": "'' @ p @ str ''", "func_signature": "'' @ f @ str ''"}'' @ rest) [] =
     Inr (JObject [(str ''problem'', JString p), (str ''func_signature'', JString f)], rest)\<close>
proof -
  have k: \<open>scanstring (str ''problem": "'' @ p @ str ''", "func_signature": "'' @ f @ str ''"}'' @ rest) =
      Inr (str ''problem'', str '': "'' @ p @ str ''", "func_signature": "'' @ f @ str ''"}'' @ rest)\<close>
    by (simp add: str_def with_char_def)
  have v1: \<open>scan_once (Suc (Suc n)) (34 # p @ str ''", "func_signature": "'' @ f @ str ''"}'' @ rest) =
      Inr (JString p, str '', "func_signature": "'' @ f @ str ''"}'' @ rest)\<close>
    using plain_value_scan[OF assms(1), of \<open>str '', "func_signature": "'' @ f @ str ''"}'' @ rest\<close>]
    by (simp add: str_def)
  have k2: \<open>scanstring (str ''func_signature": "'' @ f @ str ''"}'' @ rest) =
      Inr (str ''func_signature'', str '': "'' @ f @ str ''"}'' @ rest)\<close>
    by (simp add: str_def with_char_def)
  have v2: \<open>scan_once (Suc n) (34 # f @ str ''"}'' @ rest) = Inr (JString f, 125 # rest)\<close>
    using plain_value_scan[OF assms(2), of "125 # rest"] by (simp add: str_def)
  have o2: \<open>JSONObject (Suc (Suc n)) (str ''func_signature": "'' @ f @ str ''"}'' @ rest)
      [(str ''problem'', JString p)] =
      Inr (JObject [(str ''problem'', JString p), (str ''func_signature'', JString f)], rest)\<close>
    using v2 k2 by (simp add: str_def skip_ws_Cons is_json_ws_def dict_def)
  show ?thesis
    using v1 o2 k by (simp add: str_def skip_ws_Cons is_json_ws_def)
qed

lemma escape_latex_no_backslash: "92 \<notin> set t \<Longrightarrow> escape_latex t = t"
  using escape_with_plain[of t latex_commands "[]"] by (simp add: escape_latex_eq)

lemma strip_fences_no_fence: "\<not> startswith t fence \<Longrightarrow> strip_fences t = t"
  by (simp add: strip_fences_def)

lemma set_strip: "set (strip raw) \<subseteq> set raw"
proof -
  have "set (strip raw) \<subseteq> set (dropWhile isspace raw)"
    unfolding strip_def using set_dropWhileD[of _ isspace "rev (dropWhile isspace raw)"] by auto
  also have "\<dots> \<subseteq> set raw" using set_dropWhileD[of _ isspace raw] by auto
  finally show ?thesis .
qed

lemma scan_once_prose: "prose_start c \<Longrightarrow> scan_once (Suc n) (c # r) = Inl JSONDecodeError"
  by (auto simp: prose_start_def str_def match_number_def match_integer_def)

lemma json_loads_prose: "prose_start c \<Longrightarrow> json_loads (c # r) = Inl JSONDecodeError"
proof -
  assume p: "prose_start c"
  then have "\<not> is_json_ws c" "c \<noteq> 65279" by (auto simp: prose_start_def is_json_ws_def)
  then show ?thesis using scan_once_prose[OF p] by (simp add: json_loads_def skip_ws_Cons)
qed



section \<open>Texts that reach the decoder as they are\<close>

lemma flat_object_candidate:
  assumes "brace_free inner"
    "\<forall>cmd\<in>set latex_commands. \<not> sublist (backslash # str cmd) ([123] @ inner @ [125])"
  shows "candidate ([123] @ inner @ [125]) = [123] @ inner @ [125]"
proof -
  have a: "brace_free inner \<and>
   (\<forall>cmd\<in>set latex_commands. \<not> sublist (backslash # str cmd) ([123] @ inner @ [125]))"
    using assms by simp
  let ?t = "[123] @ inner @ [125]"
  have s: "strip ?t = ?t" by (rule strip_id) (simp_all add: isspace_def)
  have nf: "\<not> startswith ?t fence" by (simp add: startswith_def fence_def)
  have e: "extract_object ?t = ?t"
  proof (cases "json_match ?t")
    case None
    then show ?thesis by (simp add: extract_object_def)
  next
    case (Some m)
    then have "re_search_from object_re True ?t = Some m"
      by (simp add: json_match_def re_search_def)
    from re_search_some[OF bol_object_re this] obtain u x where
      t: "?t = u @ m @ x" by blast
    from json_match_shape[OF Some] obtain a' b c where
      m: "m = [123] @ a' @ quoted ''problem'' @ b @ quoted ''func_signature'' @ c @ [125]"
      and bf: "brace_free a'" "brace_free b" "brace_free c" by blast
    let ?seg = "a' @ quoted ''problem'' @ b @ quoted ''func_signature'' @ c"
    have seg: "brace_free ?seg" using bf brace_free_quoted by simp
    have u: "u = []"
    proof (cases u)
      case (Cons y u')
      then have "inner @ [125] = u' @ m @ x" using t by simp
      then have "123 \<in> set (inner @ [125])" using m by simp
      then show ?thesis using a by (simp add: brace_free_def)
    qed simp
    then have "inner @ [125] @ [] = ?seg @ [125] @ x" using t m by simp
    from brace_split_unique[OF this] a seg have "x = []" "inner = ?seg" by simp_all
    then have "m = ?t" using m by simp
    then show ?thesis using Some by (simp add: extract_object_def)
  qed
  have "escape_latex ?t = ?t"
    using a escape_with_no_command[of latex_commands ?t]
    by (simp add: escape_latex_eq backslash_def)
  then show ?thesis
    using s strip_fences_no_fence[OF nf] e by (simp add: candidate_def)
qed

lemma two_members_succeed:
  \<open>plain_value p \<and> plain_value f \<longrightarrow>
     normalize_response (str ''{"problem": "'' @ p @ str ''", "func_signature": "'' @ f @ str ''"}'') =
     Inr (JObject [(str ''problem'', JString p), (str ''func_signature'', JString f)])\<close>
proof
  assume pf: "plain_value p \<and> plain_value f"
  let ?t = \<open>str ''{"problem": "'' @ p @ str ''", "func_signature": "'' @ f @ str ''"}''\<close>
  have shape: \<open>?t = [] @ [123] @ [] @ quoted ''problem'' @ (str '': "'' @ p @ str ''", '') @
      quoted ''func_signature'' @ (str '': "'' @ f @ str ''"'') @ [125] @ []\<close>
    by (simp add: str_def quoted_def)
  have s: "strip ?t = ?t" by (rule strip_id) (simp_all add: str_def isspace_def)
  have nf: "\<not> startswith ?t fence" by (simp add: startswith_def str_def fence_def)
  have bf: \<open>brace_free (str '': "'' @ p @ str ''", '')\<close> \<open>brace_free (str '': "'' @ f @ str ''"'')\<close>
    using pf plain_value_sets by (auto simp: brace_free_def str_def)
  have "json_match ?t = Some ?t"
    using json_match_selects[of "[]" "[]" _ _ "[]", OF _ _ bf] unfolding shape
    by (simp add: brace_free_def)
  then have e: "extract_object ?t = ?t" by (simp add: extract_object_def)
  have "92 \<notin> set ?t" using pf plain_value_sets by (auto simp: str_def)
  then have c: "candidate ?t = ?t"
    using s strip_fences_no_fence[OF nf] e
    by (simp add: candidate_def escape_latex_no_backslash)
  obtain n where n: "length (?t @ ?t) = Suc (Suc (Suc n))"
    by (rule that[of "length (?t @ ?t) - 3"]) (simp add: str_def)
  have \<open>scan_once (Suc (length (?t @ ?t))) ?t =
      Inr (JObject [(str ''problem'', JString p), (str ''func_signature'', JString f)], [])\<close>
    unfolding n using JSONObject_two_members[of p f n "[]"] pf
    by (simp add: str_def skip_ws_Cons is_json_ws_def)
  moreover have "skip_ws ?t = ?t" "\<not> prefix [65279] ?t"
    by (simp_all add: str_def skip_ws_Cons is_json_ws_def)
  ultimately have "json_loads ?t =
      Inr (JObject [(str ''problem'', JString p), (str ''func_signature'', JString f)])"
    unfolding json_loads_def by (simp add: skip_ws_def)
  then show "normalize_response ?t =
      Inr (JObject [(str ''problem'', JString p), (str ''func_signature'', JString f)])"
    by (simp add: normalize_response_def c)
qed

section \<open>Evaluating the pipeline on a given text\<close>

text \<open>
  The definitions are unfolded by the simplifier. The fuel of the decoder is the length
  of a given list, which the simplifier computes as a tower of successors, the form the
  equations of the decoder match.
\<close>

lemmas text_defs = str_def backslash_def fence_def quoted_def

lemmas stage_defs = strip_def isspace_def startswith_def strip_fences_def
  open_fence_re_def close_fence_re_def re_sub_empty_def
  json_match_def re_search_def object_re_def extract_object_def candidate_def
  normalize_response_def

lemmas escape_defs = latex_commands_def escape_cmd_def escape_latex_def replace_def

lemmas json_defs = json_loads_def skip_ws_def is_json_ws_def isdigit_def hex_value_def
  BACKSLASH_def with_char_def match_integer_def match_frac_def match_exp_def
  digits_value_def parse_int_def match_number_def dict_def

section \<open>Claim C1: braces inside string values\<close>

text \<open>
  C1, as stated: whenever a field value holds a brace inside a quoted string, extraction
  still finds the whole balanced object, because it scans with a brace depth and tracks
  quoted strings. The script searches with a pattern that admits no brace between the
  opening and the closing one. On the object below, whose \<open>func_signature\<close> value holds a
  closing brace, it selects the text up to that brace and drops the rest.
\<close>

theorem extraction_truncates_at_inner_brace:
  \<open>extract_object (str ''{"problem": "p", "func_signature": "f() }", "class_definitions": ""}'') =
     str ''{"problem": "p", "func_signature": "f() }''\<close>
  by (simp add: text_defs stage_defs)

text \<open>
  C1, amended: extraction is the non-nested pattern search of the script. Whatever it
  selects starts with an opening brace, ends with a closing brace and has no brace in
  between; so an object that has a brace between its outer braces is never what
  extraction selects, whatever the text it stands in. For the example of the claim the
  pattern matches nowhere: nothing is selected, and the text, which is the whole object,
  goes on unchanged.
\<close>

theorem extraction_selects_brace_free:
  \<open>(json_match t = Some m \<longrightarrow> (\<exists>seg. m = [123] @ seg @ [125] \<and> brace_free seg)) \<and>
   (\<not> brace_free inner \<longrightarrow> json_match t \<noteq> Some ([123] @ inner @ [125])) \<and>
   json_match
     (str ''{"problem": "has a { brace", "func_signature": "f()", "class_definitions": ""}'') = None \<and>
   extract_object
     (str ''{"problem": "has a { brace", "func_signature": "f()", "class_definitions": ""}'') =
     str ''{"problem": "has a { brace", "func_signature": "f()", "class_definitions": ""}''\<close>
proof -
  have sel: "\<exists>seg. m = [123] @ seg @ [125] \<and> brace_free seg" if "json_match t = Some m" for t m
  proof -
    from json_match_shape[OF that] obtain a b c where
      m: "m = [123] @ a @ quoted ''problem'' @ b @ quoted ''func_signature'' @ c @ [125]"
      and bf: "brace_free a" "brace_free b" "brace_free c" by blast
    have "brace_free (a @ quoted ''problem'' @ b @ quoted ''func_signature'' @ c)"
      using bf brace_free_quoted by simp
    then show ?thesis using m by auto
  qed
  have whole: "json_match t \<noteq> Some ([123] @ inner @ [125])" if "\<not> brace_free inner"
  proof
    assume "json_match t = Some ([123] @ inner @ [125])"
    from sel[OF this] obtain seg where "inner @ [125] = seg @ [125]" "brace_free seg" by auto
    then show False using that by simp
  qed
  have ex: \<open>json_match
     (str ''{"problem": "has a { brace", "func_signature": "f()", "class_definitions": ""}'') = None\<close>
    \<open>extract_object
     (str ''{"problem": "has a { brace", "func_signature": "f()", "class_definitions": ""}'') =
     str ''{"problem": "has a { brace", "func_signature": "f()", "class_definitions": ""}''\<close>
    by (simp_all add: text_defs stage_defs)
  show ?thesis using sel[of t m] whole ex by blast
qed

theorem extraction_selects_brace_free_witness:
  \<open>json_match (str ''Sure: {"problem": "p", "func_signature": "f() }", "x": 1} done'') =
     Some (str ''{"problem": "p", "func_signature": "f() }'') \<and>
   (\<exists>seg. str ''{"problem": "p", "func_signature": "f() }'' = [123] @ seg @ [125] \<and> brace_free seg) \<and>
   json_match (str ''Sure: {"problem": "p", "func_signature": "f() }", "x": 1} done'') \<noteq>
     Some ([123] @ str ''"problem": "p", "func_signature": "f() }", "x": 1'' @ [125])\<close>
proof -
  have h: \<open>json_match (str ''Sure: {"problem": "p", "func_signature": "f() }", "x": 1} done'') =
     Some (str ''{"problem": "p", "func_signature": "f() }'')\<close>
    by (simp add: text_defs stage_defs)
  have n: \<open>\<not> brace_free (str ''"problem": "p", "func_signature": "f() }", "x": 1'')\<close>
    by (simp add: str_def brace_free_def)
  from extraction_selects_brace_free[of
      \<open>str ''Sure: {"problem": "p", "func_signature": "f() }", "x": 1} done''\<close>
      \<open>str ''{"problem": "p", "func_signature": "f() }''\<close>
      \<open>str ''"problem": "p", "func_signature": "f() }", "x": 1''\<close>] h n
  show ?thesis by blast
qed

section \<open>Claim C2: a recognised command gets exactly one more backslash\<close>

text \<open>
  C2. A single backslash followed by a recognised command name is to become exactly two
  backslashes followed by the name. The list of the script holds \<open>le\<close> before \<open>leq\<close> (and
  \<open>ge\<close> before \<open>geq\<close>): the pass for \<open>le\<close> doubles the backslash of \<open>\leq\<close> and the pass for
  \<open>leq\<close> doubles it again, which leaves three backslashes, and the decoder then refuses the
  string that holds them.
\<close>

theorem escape_latex_leq_tripled:
  "escape_latex (backslash # str ''leq'') = [backslash, backslash, backslash] @ str ''leq'' \<and>
   json_loads ([34] @ escape_latex (backslash # str ''leq'') @ [34]) = Inl JSONDecodeError"
  by (simp add: text_defs escape_defs json_defs)

section \<open>Claim C3: escaping twice\<close>

text \<open>
  C3, as stated: escaping twice gives the same text as escaping once. The loop doubles the
  backslash of every command it finds, also one that is doubled already.
\<close>

theorem escape_latex_twice_counterexample:
  "escape_latex (backslash # str ''le'') = [backslash, backslash] @ str ''le'' \<and>
   escape_latex (escape_latex (backslash # str ''le'')) =
     [backslash, backslash, backslash] @ str ''le''"
  by (simp add: text_defs escape_defs)

text \<open>
  C3, amended: escaping twice gives the same text as escaping once exactly for the texts
  in which no backslash is immediately followed by a recognised command name (and those
  texts the stage leaves as they are).
\<close>

theorem escape_latex_twice:
  "escape_latex (escape_latex t) = escape_latex t \<longleftrightarrow>
     (\<forall>cmd\<in>set latex_commands. \<not> sublist (backslash # str cmd) t)"
proof
  assume idem: "escape_latex (escape_latex t) = escape_latex t"
  show "\<forall>cmd\<in>set latex_commands. \<not> sublist (backslash # str cmd) t"
  proof (intro ballI notI)
    fix cmd assume c: "cmd \<in> set latex_commands" and s: "sublist (backslash # str cmd) t"
    from escape_with_keeps_command[OF plain_latex_commands c] s
    have "sublist (92 # str cmd) (escape_latex t)" by (simp add: backslash_def escape_latex_eq)
    from length_escape_with_command[OF c this]
    have "length (escape_latex t) < length (escape_latex (escape_latex t))"
      by (simp add: escape_latex_eq)
    with idem show False by simp
  qed
next
  assume "\<forall>cmd\<in>set latex_commands. \<not> sublist (backslash # str cmd) t"
  then have "escape_latex t = t"
    using escape_with_no_command[of latex_commands t] by (simp add: backslash_def escape_latex_eq)
  then show "escape_latex (escape_latex t) = escape_latex t" by simp
qed

theorem escape_latex_twice_witness:
  "escape_latex (escape_latex (str ''f(x) '' @ [backslash] @ str ''n'')) =
     escape_latex (str ''f(x) '' @ [backslash] @ str ''n'') \<and>
   escape_latex (escape_latex (str ''$1 '' @ [backslash] @ str ''le n$'')) \<noteq>
     escape_latex (str ''$1 '' @ [backslash] @ str ''le n$'')"
proof -
  have a: "\<forall>cmd\<in>set latex_commands.
      \<not> sublist (backslash # str cmd) (str ''f(x) '' @ [backslash] @ str ''n'')"
    by (simp add: text_defs latex_commands_def sublist_code)
  have b: "\<not> (\<forall>cmd\<in>set latex_commands.
      \<not> sublist (backslash # str cmd) (str ''$1 '' @ [backslash] @ str ''le n$''))"
    by (simp add: text_defs latex_commands_def sublist_code)
  show ?thesis
    using a b escape_latex_twice[of "str ''f(x) '' @ [backslash] @ str ''n''"]
      escape_latex_twice[of "str ''$1 '' @ [backslash] @ str ''le n$''"] by blast
qed

section \<open>Claim C4: escapes that JSON already knows\<close>

text \<open>
  C4, as stated: every \<open>\"\<close>, \<open>\\\<close>, \<open>\n\<close>, \<open>\t\<close> and \<open>\/\<close> of the text, also a doubled
  backslash followed by a recognised command name, is unchanged in the output. A doubled
  backslash followed by \<open>le\<close> becomes three backslashes, and \<open>\n\<close> followed by \<open>ext\<close>
  becomes two backslashes and \<open>next\<close>, since \<open>ne\<close> is a recognised command.
\<close>

theorem json_escapes_kept_counterexample:
  "escape_latex ([backslash, backslash] @ str ''le'') =
     [backslash, backslash, backslash] @ str ''le'' \<and>
   escape_latex ([backslash, 110] @ str ''ext'') = [backslash, backslash, 110] @ str ''ext''"
  by (simp add: text_defs escape_defs)

text \<open>
  C4, amended: \<open>\"\<close> and \<open>\/\<close> are always left as they are; \<open>\n\<close> and \<open>\t\<close> are left
  as they are when no recognised command name starts at the letter after the backslash;
  a doubled backslash is left as it is when no recognised command name starts right after
  it. "Left as it is": the output is the escaped text before the escape, the escape, and
  the escaped text after it.
\<close>

theorem json_escapes_kept:
  "(e = 34 \<or> e = 47 \<longrightarrow>
      escape_latex (u @ [backslash, e] @ v) = escape_latex u @ [backslash, e] @ escape_latex v) \<and>
   ((e = 110 \<or> e = 116) \<and> (\<forall>cmd\<in>set latex_commands. \<not> prefix (str cmd) (e # v)) \<longrightarrow>
      escape_latex (u @ [backslash, e] @ v) = escape_latex u @ [backslash, e] @ escape_latex v) \<and>
   ((\<forall>cmd\<in>set latex_commands. \<not> prefix (str cmd) v) \<longrightarrow>
      escape_latex (u @ [backslash, backslash] @ v) =
        escape_latex u @ [backslash, backslash] @ escape_latex v)"
proof -
  note sp = escape_with_split[OF plain_commandsD[OF plain_latex_commands]]
  have A: "escape_with latex_commands (u @ [92, e] @ v) =
      escape_with latex_commands u @ [92, e] @ escape_with latex_commands v"
    if "e \<noteq> 92" "\<forall>cmd\<in>set latex_commands. \<not> prefix (str cmd) (e # v)" for e
  proof -
    have "filter (\<lambda>d. prefix (str d) (e # v)) latex_commands = []"
      using that(2) by (auto simp: filter_empty_conv)
    then have "escape_with latex_commands (92 # e # v) = [92, e] @ escape_with latex_commands v"
      using that(1) by simp
    then show ?thesis using sp[of "92 # e # v" u] by simp
  qed
  have q: "\<forall>cmd\<in>set latex_commands. \<not> prefix (str cmd) (e # v)" if "e = 34 \<or> e = 47"
    using that by (auto simp: latex_commands_def str_def)
  have B: "escape_with latex_commands (u @ [92, 92] @ v) =
      escape_with latex_commands u @ [92, 92] @ escape_with latex_commands v"
    if "\<forall>cmd\<in>set latex_commands. \<not> prefix (str cmd) v"
  proof -
    have f: "filter (\<lambda>d. prefix (str d) v) latex_commands = []"
      using that by (auto simp: filter_empty_conv)
    have g: "filter (\<lambda>d. prefix (str d) (92 # v)) latex_commands = []"
      by (auto simp: filter_empty_conv latex_commands_def str_def)
    have "escape_with latex_commands (92 # 92 # v) = [92, 92] @ escape_with latex_commands v"
      using f g by simp
    then show ?thesis using sp[of "92 # 92 # v" u] by simp
  qed
  show ?thesis using A[of e] B q by (auto simp: escape_latex_eq backslash_def)
qed

theorem json_escapes_kept_witness:
  \<open>escape_latex (str ''say '' @ [backslash, 34] @ str ''hi'') =
     escape_latex (str ''say '') @ [backslash, 34] @ escape_latex (str ''hi'') \<and>
   escape_latex (str ''a'' @ [backslash, 110] @ str ''b'') =
     escape_latex (str ''a'') @ [backslash, 110] @ escape_latex (str ''b'') \<and>
   escape_latex (str ''a'' @ [backslash, backslash] @ str ''n'') =
     escape_latex (str ''a'') @ [backslash, backslash] @ escape_latex (str ''n'')\<close>
proof -
  have h2: "(110 = (110::nat) \<or> 110 = (116::nat)) \<and>
      (\<forall>cmd\<in>set latex_commands. \<not> prefix (str cmd) (110 # str ''b''))"
    by (simp add: text_defs latex_commands_def)
  have h3: "\<forall>cmd\<in>set latex_commands. \<not> prefix (str cmd) (str ''n'')"
    by (simp add: text_defs latex_commands_def)
  show ?thesis
    using json_escapes_kept[of 34 "str ''say ''" "str ''hi''"]
      json_escapes_kept[of 110 "str ''a''" "str ''b''"] h2
      json_escapes_kept[of 0 "str ''a''" "str ''n''"] h3 by blast
qed

section \<open>Claim C5: a missing field\<close>

text \<open>
  C5, as stated: a candidate that parses as an object but lacks a required key gives the
  failure MissingField with the first missing key. The script checks no key after
  decoding: the object below, without \<open>class_definitions\<close>, is a success.
\<close>

theorem missing_field_counterexample:
  \<open>normalize_response (str ''{"problem": "p", "func_signature": "f"}'') =
     Inr (JObject [(str ''problem'', JString (str ''p'')),
                   (str ''func_signature'', JString (str ''f''))])\<close>
  by (simp add: text_defs stage_defs escape_latex_eq latex_commands_def json_defs)

text \<open>
  C5, amended: no key is checked. Whenever the candidate text decodes to a value, the
  outcome is success with that value, whatever keys it holds or lacks. So for every text
  that is one pair of braces around brace-free text, with no backslash immediately
  followed by a recognised command name, the outcome is success with the decoded value
  whenever the text decodes, whatever its keys, their order and the spacing; and every
  object that holds \<open>problem\<close> and \<open>func_signature\<close> with plain values and no
  \<open>class_definitions\<close> succeeds with exactly these two keys.
\<close>

theorem no_key_is_checked:
  \<open>(json_loads (candidate raw) = Inr v \<longrightarrow> normalize_response raw = Inr v) \<and>
   (brace_free inner \<and>
    (\<forall>cmd\<in>set latex_commands. \<not> sublist (backslash # str cmd) ([123] @ inner @ [125])) \<and>
    json_loads ([123] @ inner @ [125]) = Inr w \<longrightarrow>
      normalize_response ([123] @ inner @ [125]) = Inr w) \<and>
   (plain_value p \<and> plain_value f \<longrightarrow>
      normalize_response
        (str ''{"problem": "'' @ p @ str ''", "func_signature": "'' @ f @ str ''"}'') =
      Inr (JObject [(str ''problem'', JString p), (str ''func_signature'', JString f)]))\<close>
proof (intro conjI impI)
  assume "json_loads (candidate raw) = Inr v"
  then show "normalize_response raw = Inr v" by (simp add: normalize_response_def)
next
  assume a: "brace_free inner \<and>
    (\<forall>cmd\<in>set latex_commands. \<not> sublist (backslash # str cmd) ([123] @ inner @ [125])) \<and>
    json_loads ([123] @ inner @ [125]) = Inr w"
  then have "candidate ([123] @ inner @ [125]) = [123] @ inner @ [125]"
    using flat_object_candidate[of inner] by blast
  then have "normalize_response ([123] @ inner @ [125]) = json_loads ([123] @ inner @ [125])"
    unfolding normalize_response_def by (rule arg_cong)
  then show "normalize_response ([123] @ inner @ [125]) = Inr w" using a by simp
next
  assume "plain_value p \<and> plain_value f"
  then show \<open>normalize_response
        (str ''{"problem": "'' @ p @ str ''", "func_signature": "'' @ f @ str ''"}'') =
      Inr (JObject [(str ''problem'', JString p), (str ''func_signature'', JString f)])\<close>
    using two_members_succeed[of p f] by blast
qed

theorem no_key_is_checked_witness:
  \<open>normalize_response (fence @ str ''json'' @ [10] @ str ''{"a": 1}'' @ [10] @ fence) =
     Inr (JObject [(str ''a'', JInt 1)]) \<and>
   normalize_response ([123] @ str ''"func_signature":"f","problem":"p"'' @ [125]) =
     Inr (JObject [(str ''func_signature'', JString (str ''f'')),
                   (str ''problem'', JString (str ''p''))]) \<and>
   normalize_response ([123] @ str ''"func_signature": "f"'' @ [125]) =
     Inr (JObject [(str ''func_signature'', JString (str ''f''))]) \<and>
   normalize_response
     (str ''{"problem": "'' @ str ''Add two numbers.'' @ str ''", "func_signature": "'' @
      str ''def add(a: int, b: int) -> int:'' @ str ''"}'') =
   Inr (JObject [(str ''problem'', JString (str ''Add two numbers.'')),
                 (str ''func_signature'', JString (str ''def add(a: int, b: int) -> int:''))])\<close>
proof -
  have h1: \<open>json_loads (candidate (fence @ str ''json'' @ [10] @ str ''{"a": 1}'' @ [10] @ fence)) =
      Inr (JObject [(str ''a'', JInt 1)])\<close>
    by (simp add: text_defs stage_defs escape_latex_eq latex_commands_def json_defs)
  have h2: \<open>brace_free (str ''"func_signature":"f","problem":"p"'') \<and>
      (\<forall>cmd\<in>set latex_commands.
         \<not> sublist (backslash # str cmd) ([123] @ str ''"func_signature":"f","problem":"p"'' @ [125])) \<and>
      json_loads ([123] @ str ''"func_signature":"f","problem":"p"'' @ [125]) =
        Inr (JObject [(str ''func_signature'', JString (str ''f'')),
                      (str ''problem'', JString (str ''p''))])\<close>
    by (simp add: text_defs brace_free_def latex_commands_def sublist_code json_defs)
  have h3: \<open>brace_free (str ''"func_signature": "f"'') \<and>
      (\<forall>cmd\<in>set latex_commands.
         \<not> sublist (backslash # str cmd) ([123] @ str ''"func_signature": "f"'' @ [125])) \<and>
      json_loads ([123] @ str ''"func_signature": "f"'' @ [125]) =
        Inr (JObject [(str ''func_signature'', JString (str ''f''))])\<close>
    by (simp add: text_defs brace_free_def latex_commands_def sublist_code json_defs)
  have h4: "plain_value (str ''Add two numbers.'') \<and>
      plain_value (str ''def add(a: int, b: int) -> int:'')"
    by (simp add: plain_value_def str_def)
  have c1: \<open>normalize_response (fence @ str ''json'' @ [10] @ str ''{"a": 1}'' @ [10] @ fence) =
     Inr (JObject [(str ''a'', JInt 1)])\<close>
    using no_key_is_checked[of \<open>fence @ str ''json'' @ [10] @ str ''{"a": 1}'' @ [10] @ fence\<close>
        \<open>JObject [(str ''a'', JInt 1)]\<close>] h1 by blast
  have c2: \<open>normalize_response ([123] @ str ''"func_signature":"f","problem":"p"'' @ [125]) =
     Inr (JObject [(str ''func_signature'', JString (str ''f'')),
                   (str ''problem'', JString (str ''p''))])\<close>
    using no_key_is_checked[of _ _ \<open>str ''"func_signature":"f","problem":"p"''\<close>
        \<open>JObject [(str ''func_signature'', JString (str ''f'')),
                   (str ''problem'', JString (str ''p''))]\<close>] h2 by blast
  have c3: \<open>normalize_response ([123] @ str ''"func_signature": "f"'' @ [125]) =
     Inr (JObject [(str ''func_signature'', JString (str ''f''))])\<close>
    using no_key_is_checked[of _ _ \<open>str ''"func_signature": "f"''\<close>
        \<open>JObject [(str ''func_signature'', JString (str ''f''))]\<close>] h3 by blast
  have c4: \<open>normalize_response
     (str ''{"problem": "'' @ str ''Add two numbers.'' @ str ''", "func_signature": "'' @
      str ''def add(a: int, b: int) -> int:'' @ str ''"}'') =
   Inr (JObject [(str ''problem'', JString (str ''Add two numbers.'')),
                 (str ''func_signature'', JString (str ''def add(a: int, b: int) -> int:''))])\<close>
    using no_key_is_checked[of _ _ _ _ "str ''Add two numbers.''"
        "str ''def add(a: int, b: int) -> int:''"] h4 by blast
  from c1 c2 c3 c4 show ?thesis by blast
qed

section \<open>Claim C6: text with no object\<close>

text \<open>
  C6, as stated: a text with no JSON-like structure gives the failure NoObjectFound with
  the full text, not a decode error. In the script a search that finds nothing is no
  failure: the text goes on as it is, and the decoder raises its error.
\<close>

theorem plain_prose_counterexample:
  "json_match (str ''Hello world'') = None \<and>
   candidate (str ''Hello world'') = str ''Hello world'' \<and>
   normalize_response (str ''Hello world'') = Inl JSONDecodeError"
  by (simp add: text_defs stage_defs escape_latex_eq latex_commands_def json_defs)

text \<open>
  C6, amended: for a text with no opening brace the outcome is what the decoder gives on
  the whole trimmed, unfenced and escaped text; when the trimmed text starts as prose does,
  that is the decoder's error.
\<close>

theorem prose_reaches_decoder:
  "(123 \<notin> set raw \<longrightarrow>
      normalize_response raw = json_loads (escape_latex (strip_fences (strip raw)))) \<and>
   (123 \<notin> set raw \<and> strip raw \<noteq> [] \<and> prose_start (hd (strip raw)) \<longrightarrow>
      normalize_response raw = Inl JSONDecodeError)"
proof (intro conjI impI)
  assume n: "123 \<notin> set raw"
  have sf: "set (strip_fences (strip raw)) \<subseteq> set raw"
  proof (cases "startswith (strip raw) fence")
    case False
    then show ?thesis using set_strip by (simp add: strip_fences_def)
  next
    case True
    have sub: "set (re_sub_from r b s) \<subseteq> set s" for r b s
    proof (induction r b s rule: re_sub_from.induct)
      case (2 r b c cs)
      show ?case
      proof (cases "re_match r b (c # cs)")
        case None
        then show ?thesis using 2 by auto
      next
        case (Some x)
        from re_match_suffix[OF Some] have "set x \<subseteq> set (c # cs)" by (rule set_mono_suffix)
        then show ?thesis using 2 Some by (auto split: if_splits)
      qed
    qed simp
    have "set (strip_fences (strip raw)) \<subseteq> set (strip raw)"
      using True sub[of close_fence_re True] sub[of open_fence_re True "strip raw"]
      unfolding strip_fences_def re_sub_empty_def by (simp only: if_True) blast
    then show ?thesis using set_strip by blast
  qed
  then have "123 \<notin> set (strip_fences (strip raw))" using n by blast
  then have "extract_object (strip_fences (strip raw)) = strip_fences (strip raw)"
    by (simp add: extract_object_def json_match_no_brace)
  then show "normalize_response raw = json_loads (escape_latex (strip_fences (strip raw)))"
    by (simp add: normalize_response_def candidate_def)
next
  assume a: "123 \<notin> set raw \<and> strip raw \<noteq> [] \<and> prose_start (hd (strip raw))"
  then obtain c r where cr: "strip raw = c # r" and p: "prose_start c" by (cases "strip raw") auto
  have c: "c \<noteq> 96" "c \<noteq> 92" using p by (auto simp: prose_start_def)
  have nf: "strip_fences (strip raw) = c # r" using c cr
    by (simp add: strip_fences_def startswith_def fence_def)
  have "123 \<notin> set (c # r)" using a set_strip[of raw] cr by auto
  then have ex: "extract_object (c # r) = c # r"
    by (simp add: extract_object_def json_match_no_brace)
  have "escape_latex (c # r) = c # escape_latex r" using c by (simp add: escape_latex_eq)
  then show "normalize_response raw = Inl JSONDecodeError"
    by (simp add: normalize_response_def candidate_def nf ex json_loads_prose[OF p])
qed

theorem prose_reaches_decoder_witness:
  "normalize_response (str '' 42 '') = json_loads (escape_latex (strip_fences (strip (str '' 42 '')))) \<and>
   normalize_response (str '' 42 '') = Inr (JInt 42) \<and>
   normalize_response (str '' Sorry, I cannot help. '') = Inl JSONDecodeError"
proof -
  have h1: "123 \<notin> set (str '' 42 '')" by (simp add: str_def)
  have h2: "123 \<notin> set (str '' Sorry, I cannot help. '') \<and>
      strip (str '' Sorry, I cannot help. '') \<noteq> [] \<and>
      prose_start (hd (strip (str '' Sorry, I cannot help. '')))"
    by (simp add: str_def strip_def isspace_def prose_start_def)
  have e: "json_loads (escape_latex (strip_fences (strip (str '' 42 '')))) = Inr (JInt 42)"
    by (simp add: text_defs stage_defs escape_latex_eq latex_commands_def json_defs)
  have a: "normalize_response (str '' 42 '') =
      json_loads (escape_latex (strip_fences (strip (str '' 42 ''))))"
    using prose_reaches_decoder[of "str '' 42 ''"] h1 by blast
  have b: "normalize_response (str '' Sorry, I cannot help. '') = Inl JSONDecodeError"
    using prose_reaches_decoder[of "str '' Sorry, I cannot help. ''"] h2 by blast
  show ?thesis by (simp add: a b e)
qed

section \<open>Claim C7: the end-to-end example\<close>

text \<open>
  C7. The input is the line \<open>Here is the problem:\<close>, a fence with the tag \<open>json\<close>, the
  object, and a closing fence. The result is a success whose \<open>problem\<close> holds
  \<open>$2 \le n \le 10^4$\<close> with single backslashes, and whose other two fields are as given.
\<close>

theorem end_to_end_example:
  \<open>normalize_response
     (str ''Here is the problem:'' @ [10] @ fence @ str ''json'' @ [10] @
      str ''{"problem": "Find pairs summing to target, where $2 '' @ [backslash] @ str ''le n '' @
      [backslash] @ str ''le 10^4$", "func_signature": "def f(nums: list) -> list:", '' @
      str ''"class_definitions": ""}'' @ [10] @ fence) =
   Inr (JObject
     [(str ''problem'',
       JString (str ''Find pairs summing to target, where $2 '' @ [backslash] @ str ''le n '' @
                [backslash] @ str ''le 10^4$'')),
      (str ''func_signature'', JString (str ''def f(nums: list) -> list:'')),
      (str ''class_definitions'', JString [])])\<close>
  by (simp add: text_defs stage_defs escape_latex_eq latex_commands_def json_defs)

section \<open>Claim C8: input that is valid JSON already\<close>

text \<open>
  C8, as stated: on a valid JSON object with all fields the result is the direct decode
  of the input. The object below is valid JSON: its \<open>problem\<close> holds a backslash written
  as the escape \<open>\\\<close>, followed by \<open>le\<close>. The escaping stage adds a third backslash and the
  decoder refuses the text.
\<close>

theorem clean_input_counterexample:
  \<open>json_loads
     (str ''{"problem": "$1 '' @ [backslash, backslash] @
      str ''le n$", "func_signature": "f", "class_definitions": ""}'') =
   Inr (JObject [(str ''problem'', JString (str ''$1 '' @ [backslash] @ str ''le n$'')),
                 (str ''func_signature'', JString (str ''f'')),
                 (str ''class_definitions'', JString [])]) \<and>
   normalize_response
     (str ''{"problem": "$1 '' @ [backslash, backslash] @
      str ''le n$", "func_signature": "f", "class_definitions": ""}'') = Inl JSONDecodeError\<close>
  by (simp add: text_defs stage_defs escape_latex_eq latex_commands_def json_defs)

text \<open>
  C8, amended: on a text that is one pair of braces around brace-free text, and in which
  no backslash is immediately followed by a recognised command name, the result is the
  direct decode of the text.
\<close>

theorem clean_input_decodes_directly:
  "brace_free inner \<and>
   (\<forall>cmd\<in>set latex_commands. \<not> sublist (backslash # str cmd) ([123] @ inner @ [125])) \<longrightarrow>
   normalize_response ([123] @ inner @ [125]) = json_loads ([123] @ inner @ [125])"
proof
  let ?t = "[123] @ inner @ [125]"
  assume a: "brace_free inner \<and>
   (\<forall>cmd\<in>set latex_commands. \<not> sublist (backslash # str cmd) ?t)"
  have s: "strip ?t = ?t" by (rule strip_id) (simp_all add: isspace_def)
  have nf: "\<not> startswith ?t fence" by (simp add: startswith_def fence_def)
  have e: "extract_object ?t = ?t"
  proof (cases "json_match ?t")
    case None
    then show ?thesis by (simp add: extract_object_def)
  next
    case (Some m)
    then have "re_search_from object_re True ?t = Some m"
      by (simp add: json_match_def re_search_def)
    from re_search_some[OF bol_object_re this] obtain u x where
      t: "?t = u @ m @ x" by blast
    from json_match_shape[OF Some] obtain a' b c where
      m: "m = [123] @ a' @ quoted ''problem'' @ b @ quoted ''func_signature'' @ c @ [125]"
      and bf: "brace_free a'" "brace_free b" "brace_free c" by blast
    let ?seg = "a' @ quoted ''problem'' @ b @ quoted ''func_signature'' @ c"
    have seg: "brace_free ?seg" using bf brace_free_quoted by simp
    have u: "u = []"
    proof (cases u)
      case (Cons y u')
      then have "inner @ [125] = u' @ m @ x" using t by simp
      then have "123 \<in> set (inner @ [125])" using m by simp
      then show ?thesis using a by (simp add: brace_free_def)
    qed simp
    then have "inner @ [125] @ [] = ?seg @ [125] @ x" using t m by simp
    from brace_split_unique[OF this] a seg have "x = []" "inner = ?seg" by simp_all
    then have "m = ?t" using m by simp
    then show ?thesis using Some by (simp add: extract_object_def)
  qed
  have "escape_latex ?t = ?t"
    using a escape_with_no_command[of latex_commands ?t]
    by (simp add: escape_latex_eq backslash_def)
  then show "normalize_response ?t = json_loads ?t"
    using s strip_fences_no_fence[OF nf] e
    by (simp add: normalize_response_def candidate_def)
qed

theorem clean_input_decodes_directly_witness:
  \<open>normalize_response
     ([123] @ (str ''"problem": "a'' @ [backslash] @
               str ''nb", "func_signature": "f", "class_definitions": ""'') @ [125]) =
   json_loads
     ([123] @ (str ''"problem": "a'' @ [backslash] @
               str ''nb", "func_signature": "f", "class_definitions": ""'') @ [125]) \<and>
   json_loads
     ([123] @ (str ''"problem": "a'' @ [backslash] @
               str ''nb", "func_signature": "f", "class_definitions": ""'') @ [125]) =
   Inr (JObject [(str ''problem'', JString (str ''a'' @ [10] @ str ''b'')),
                 (str ''func_signature'', JString (str ''f'')),
                 (str ''class_definitions'', JString [])])\<close>
proof -
  let ?inner = \<open>str ''"problem": "a'' @ [backslash] @
               str ''nb", "func_signature": "f", "class_definitions": ""''\<close>
  have h: "brace_free ?inner \<and>
     (\<forall>cmd\<in>set latex_commands. \<not> sublist (backslash # str cmd) ([123] @ ?inner @ [125]))"
    by (simp add: text_defs brace_free_def latex_commands_def sublist_code)
  have e: \<open>json_loads ([123] @ ?inner @ [125]) =
     Inr (JObject [(str ''problem'', JString (str ''a'' @ [10] @ str ''b'')),
                 (str ''func_signature'', JString (str ''f'')),
                 (str ''class_definitions'', JString [])])\<close>
    by (simp add: text_defs json_defs)
  from clean_input_decodes_directly[of ?inner] h e show ?thesis by blast
qed

section \<open>Claim C9: a response inside a fence\<close>

text \<open>
  C9. A response wrapped in a fence decodes as the same response without fences does:
  for every response that has no fence of its own (its trimmed text does not start with a
  fence), the response wrapped in an opening fence with the tag \<open>json\<close> and a closing
  fence on its own line has the same outcome as the response alone; when the response
  gives a record, the wrapped response gives the identical record.
\<close>

theorem fenced_response_same:
  "\<not> startswith (strip R) fence \<longrightarrow>
     normalize_response (fence @ str ''json'' @ [10] @ R @ [10] @ fence) = normalize_response R"
proof
  assume "\<not> startswith (strip R) fence"
  then have "strip_fences (strip R) = strip R" by (rule strip_fences_no_fence)
  then have "candidate (fence @ str ''json'' @ [10] @ R @ [10] @ fence) = candidate R"
    unfolding candidate_def by (simp only: strip_fences_wrapped)
  then show "normalize_response (fence @ str ''json'' @ [10] @ R @ [10] @ fence) =
      normalize_response R"
    unfolding normalize_response_def by (rule arg_cong)
qed

theorem fenced_response_same_witness:
  \<open>normalize_response
     (fence @ str ''json'' @ [10] @
      str ''{"problem": "p", "func_signature": "f", "class_definitions": ""}'' @ [10] @ fence) =
   normalize_response (str ''{"problem": "p", "func_signature": "f", "class_definitions": ""}'') \<and>
   normalize_response (str ''{"problem": "p", "func_signature": "f", "class_definitions": ""}'') =
   Inr (JObject [(str ''problem'', JString (str ''p'')),
                 (str ''func_signature'', JString (str ''f'')),
                 (str ''class_definitions'', JString [])])\<close>
proof -
  have h: \<open>\<not> startswith
      (strip (str ''{"problem": "p", "func_signature": "f", "class_definitions": ""}'')) fence\<close>
    by (simp add: text_defs strip_def isspace_def startswith_def)
  have e: \<open>normalize_response (str ''{"problem": "p", "func_signature": "f", "class_definitions": ""}'') =
   Inr (JObject [(str ''problem'', JString (str ''p'')),
                 (str ''func_signature'', JString (str ''f'')),
                 (str ''class_definitions'', JString [])])\<close>
    by (simp add: text_defs stage_defs escape_latex_eq latex_commands_def json_defs)
  from fenced_response_same[of
      \<open>str ''{"problem": "p", "func_signature": "f", "class_definitions": ""}''\<close>] h e
  show ?thesis by blast
qed

section \<open>Claim C10: extraction never fails\<close>

text \<open>
  C10. Extraction has no failure of its own. If no part of the text has the form of the
  object pattern (an opening brace, then brace-free text holding \<open>"problem"\<close> and after it
  \<open>"func_signature"\<close>, then a closing brace), nothing is selected and the text goes on to
  the escaping and decoding stages unchanged. Whenever a part of that form starts at the
  first opening brace of the text, it is what extraction selects, whatever else the object
  holds: \<open>"class_definitions"\<close> is not asked for. An object in which every
  \<open>"func_signature"\<close> comes before every \<open>"problem"\<close> is never what extraction selects.
\<close>

theorem extraction_falls_through:
  "(\<not> (\<exists>pre a b c post.
         t = pre @ [123] @ a @ quoted ''problem'' @ b @ quoted ''func_signature'' @ c @ [125] @ post \<and>
         brace_free a \<and> brace_free b \<and> brace_free c)
      \<longrightarrow> json_match t = None \<and> extract_object t = t) \<and>
   (123 \<notin> set pre \<and> brace_free a \<and> brace_free b \<and> brace_free c
      \<longrightarrow> extract_object
            (pre @ [123] @ a @ quoted ''problem'' @ b @ quoted ''func_signature'' @ c @ [125] @ post) =
          [123] @ a @ quoted ''problem'' @ b @ quoted ''func_signature'' @ c @ [125]) \<and>
   ((\<forall>j\<in>set (occurrences (quoted ''func_signature'') seg).
       \<forall>i\<in>set (occurrences (quoted ''problem'') seg). j < i)
      \<longrightarrow> json_match t' \<noteq> Some ([123] @ seg @ [125]))"
proof (intro conjI impI)
  assume H: "\<not> (\<exists>pre a b c post.
         t = pre @ [123] @ a @ quoted ''problem'' @ b @ quoted ''func_signature'' @ c @ [125] @ post \<and>
         brace_free a \<and> brace_free b \<and> brace_free c)"
  have "re_match object_re False v = None" if "t = u @ v" for u v
  proof (cases "re_match object_re False v")
    case (Some x)
    from object_re_sound[OF Some] that H show ?thesis by blast
  qed simp
  then show n: "json_match t = None"
    by (simp add: json_match_def re_search_def re_search_none_iff[OF bol_object_re])
  show "extract_object t = t" by (simp add: extract_object_def n)
next
  let ?m = "[123] @ a @ quoted ''problem'' @ b @ quoted ''func_signature'' @ c @ [125]"
  assume A: "123 \<notin> set pre \<and> brace_free a \<and> brace_free b \<and> brace_free c"
  then have "json_match (pre @ ?m @ post) = Some ?m"
    using json_match_selects[of pre a b c post] by simp
  then show "extract_object
            (pre @ [123] @ a @ quoted ''problem'' @ b @ quoted ''func_signature'' @ c @ [125] @ post) = ?m"
    by (simp add: extract_object_def)
next
  assume O: "\<forall>j\<in>set (occurrences (quoted ''func_signature'') seg).
       \<forall>i\<in>set (occurrences (quoted ''problem'') seg). j < i"
  show "json_match t' \<noteq> Some ([123] @ seg @ [125])"
  proof
    assume "json_match t' = Some ([123] @ seg @ [125])"
    from json_match_shape[OF this] obtain a b c where
      "seg = a @ quoted ''problem'' @ b @ quoted ''func_signature'' @ c" by auto
    then have "length a \<in> set (occurrences (quoted ''problem'') seg)"
      and "length (a @ quoted ''problem'' @ b) \<in> set (occurrences (quoted ''func_signature'') seg)"
      using occurrences_mem[of seg a "quoted ''problem''" "b @ quoted ''func_signature'' @ c"]
        occurrences_mem[of seg "a @ quoted ''problem'' @ b" "quoted ''func_signature''" c]
      by simp_all
    with O show False by fastforce
  qed
qed

theorem extraction_falls_through_witness:
  \<open>json_match (str ''Hello world'') = None \<and>
   extract_object (str ''Hello world'') = str ''Hello world'' \<and>
   extract_object (str ''Sure: {"problem": "p", "func_signature": "f()"} done'') =
     str ''{"problem": "p", "func_signature": "f()"}'' \<and>
   occurrences (quoted ''func_signature'') (str ''"func_signature": "f()", "problem": "p"'') = [0] \<and>
   occurrences (quoted ''problem'') (str ''"func_signature": "f()", "problem": "p"'') = [25] \<and>
   json_match (str ''Sure: {"func_signature": "f()", "problem": "p"} done'') \<noteq>
     Some (str ''{"func_signature": "f()", "problem": "p"}'')\<close>
proof -
  have h1: \<open>\<not> (\<exists>pre a b c post.
         str ''Hello world'' =
           pre @ [123] @ a @ quoted ''problem'' @ b @ quoted ''func_signature'' @ c @ [125] @ post \<and>
         brace_free a \<and> brace_free b \<and> brace_free c)\<close>
  proof
    assume \<open>\<exists>pre a b c post.
         str ''Hello world'' =
           pre @ [123] @ a @ quoted ''problem'' @ b @ quoted ''func_signature'' @ c @ [125] @ post \<and>
         brace_free a \<and> brace_free b \<and> brace_free c\<close>
    then obtain pre r where "str ''Hello world'' = pre @ [123] @ r" by blast
    then have "123 \<in> set (str ''Hello world'')" by (metis append_Cons in_set_conv_decomp)
    then show False by (simp add: str_def)
  qed
  have h2: \<open>123 \<notin> set (str ''Sure: '') \<and> brace_free [] \<and> brace_free (str '': "p", '') \<and>
     brace_free (str '': "f()"'')\<close>
    by (simp add: str_def brace_free_def)
  have o1: \<open>occurrences (quoted ''func_signature'') (str ''"func_signature": "f()", "problem": "p"'') = [0]\<close>
    by (simp add: occurrences_def quoted_def str_def)
  have o2: \<open>occurrences (quoted ''problem'') (str ''"func_signature": "f()", "problem": "p"'') = [25]\<close>
    by (simp add: occurrences_def quoted_def str_def)
  have h3: \<open>\<forall>j\<in>set (occurrences (quoted ''func_signature'') (str ''"func_signature": "f()", "problem": "p"'')).
       \<forall>i\<in>set (occurrences (quoted ''problem'') (str ''"func_signature": "f()", "problem": "p"'')). j < i\<close>
    by (simp add: o1 o2)
  have e2: \<open>str ''Sure: {"problem": "p", "func_signature": "f()"} done'' =
     str ''Sure: '' @ [123] @ [] @ quoted ''problem'' @ str '': "p", '' @ quoted ''func_signature'' @
       str '': "f()"'' @ [125] @ str '' done''\<close>
    by (simp add: str_def quoted_def)
  have e2': \<open>str ''{"problem": "p", "func_signature": "f()"}'' =
     [123] @ [] @ quoted ''problem'' @ str '': "p", '' @ quoted ''func_signature'' @
       str '': "f()"'' @ [125]\<close>
    by (simp add: str_def quoted_def)
  have e3: \<open>str ''{"func_signature": "f()", "problem": "p"}'' =
     [123] @ str ''"func_signature": "f()", "problem": "p"'' @ [125]\<close>
    by (simp add: str_def)
  note T = extraction_falls_through[of "str ''Hello world''" "str ''Sure: ''" "[]" \<open>str '': "p", ''\<close>
      \<open>str '': "f()"''\<close> "str '' done''" \<open>str ''"func_signature": "f()", "problem": "p"''\<close>
      \<open>str ''Sure: {"func_signature": "f()", "problem": "p"} done''\<close>]
  from T h1 have c1: "json_match (str ''Hello world'') = None \<and>
    extract_object (str ''Hello world'') = str ''Hello world''" by blast
  from T h2 have c2: \<open>extract_object (str ''Sure: {"problem": "p", "func_signature": "f()"} done'') =
     str ''{"problem": "p", "func_signature": "f()"}''\<close>
    unfolding e2 e2' by blast
  from T h3 have c3: \<open>json_match (str ''Sure: {"func_signature": "f()", "problem": "p"} done'') \<noteq>
     Some (str ''{"func_signature": "f()", "problem": "p"}'')\<close>
    unfolding e3 by blast
  from c1 c2 o1 o2 c3 show ?thesis by blast
qed

end
